theory Spec2Isabelle
  imports Main "HOL-Library.Word" "HOL-Library.List_Lexorder" "HOL-Library.Char_ord"
begin

unbundle bit_operations_syntax

section \<open>Values of the embedding\<close>

text \<open>
  The reader of MDict files is JavaScript. Its numbers are modelled as \<open>int\<close> (every
  number the modelled code computes is an integer far below \<open>2^53\<close>), the elements of
  a \<open>Uint8Array\<close> as \<open>8 word\<close>, the elements of a \<open>Uint32Array\<close> as \<open>32 word\<close>, and
  \<open>undefined\<close> as \<open>None\<close>. A JavaScript string is modelled as a \<open>string\<close> whose characters
  are its code units; the embedding covers the strings whose code units are below 256,
  on which \<open>toLowerCase\<close>, \<open>trim\<close> and the comparison \<open><\<close> are the functions given
  below.
\<close>

type_synonym byte = "8 word"

text \<open>Exceptions and rejection reasons. \<open>Message\<close> is a string passed to \<open>reject\<close>.\<close>

datatype reason = Message string | TypeError | RangeError | CodecError | NaNCursor

text \<open>
  The libraries the module is given by its loader (\<open>pako\<close>, \<open>lzo\<close>, \<open>ripemd128\<close>,
  \<open>MurmurHash3\<close>) and the platform's \<open>TextDecoder\<close> are not code of the repository. They
  are parameters of the embedding:
  \<^item> \<open>hashString s\<close> is \<open>MurmurHash3.hashString(s, 32, _HASH_SEED)\<close> as stored into a
    \<open>Uint32Array\<close>;
  \<^item> \<open>ripemd128\<close> maps a key to its digest;
  \<^item> \<open>inflate\<close> is \<open>pako.inflate\<close> and \<open>lzo_decompress t n\<close> is \<open>lzo.decompress(t, n, 4096)\<close>,
    \<open>None\<close> when the codec throws;
  \<^item> \<open>decode l\<close> is \<open>new TextDecoder(l).decode\<close>.
\<close>

record ext =
  hashString :: "string \<Rightarrow> 32 word"
  ripemd128 :: "byte list \<Rightarrow> byte list"
  inflate :: "byte list \<Rightarrow> byte list option"
  lzo_decompress :: "byte list \<Rightarrow> int option \<Rightarrow> byte list option"
  decode :: "string \<Rightarrow> byte list \<Rightarrow> string"

section \<open>Decryption of the keyword index\<close>

text \<open>
  \<^verbatim>\<open>
  function decrypt(buf, key) {
    key = ripemd128(key);
    var byte, keylen = key.length, prev = 0x36, i = 0, len = buf.length;
    for (; i < len; i++) {
      byte = buf[i];
      byte = ((byte >> 4) | (byte << 4) );
      byte = byte  ^ prev ^ (i & 0xFF) ^ key[i % keylen];
      prev = buf[i];
      buf[i] = byte;
    }
    return buf;
  }
  \<close>
  The bitwise operators work on 32-bit integers; the store into the \<open>Uint8Array\<close> keeps
  the low eight bits. With an empty key, \<open>i % keylen\<close> is \<open>NaN\<close> and \<open>key[NaN]\<close> is
  \<open>undefined\<close>, which \<open>^\<close> reads as 0.
\<close>

definition key_at :: "byte list \<Rightarrow> nat \<Rightarrow> 32 word" where
  "key_at key i = (if length key = 0 then 0 else ucast (key ! (i mod length key)))"

definition decrypt_byte :: "byte list \<Rightarrow> nat \<Rightarrow> byte \<Rightarrow> byte \<Rightarrow> byte" where
  "decrypt_byte key i prev b =
     (let byte = (ucast b :: 32 word);
          byte = (drop_bit 4 byte) OR (push_bit 4 byte);
          byte = byte XOR ucast prev XOR (word_of_nat i AND 0xFF) XOR key_at key i
      in ucast byte)"

function decrypt_loop :: "byte list \<Rightarrow> nat \<Rightarrow> byte \<Rightarrow> byte list \<Rightarrow> byte list" where
  "decrypt_loop key i prev buf =
     (if i < length buf
      then decrypt_loop key (i + 1) (buf ! i) (buf[i := decrypt_byte key i prev (buf ! i)])
      else buf)"
  by pat_completeness auto
termination
  by (relation "measure (\<lambda>(key, i, prev, buf). length buf - i)") auto

definition decrypt :: "ext \<Rightarrow> byte list \<Rightarrow> byte list \<Rightarrow> byte list" where
  "decrypt x buf key = decrypt_loop (ripemd128 x key) 0 0x36 buf"

section \<open>Strings\<close>

text \<open>
  \<open>String.prototype.toLowerCase\<close>, \<open>trim\<close> and \<open>substring\<close> on code units below 256: the
  upper-case letters are \<open>A\<close> to \<open>Z\<close> and \<open>0xC0\<close> to \<open>0xDE\<close> without \<open>0xD7\<close>; white space
  is \<open>0x09\<close> to \<open>0x0D\<close>, \<open>0x20\<close> and \<open>0xA0\<close>.
\<close>

definition lower_char :: "char \<Rightarrow> char" where
  "lower_char c =
     (let n = (of_char c :: nat)
      in if (65 \<le> n \<and> n \<le> 90) \<or> (192 \<le> n \<and> n \<le> 222 \<and> n \<noteq> 215)
         then char_of (n + 32) else c)"

definition toLowerCase :: "string \<Rightarrow> string" where
  "toLowerCase s = map lower_char s"

definition is_space :: "char \<Rightarrow> bool" where
  "is_space c = ((of_char c :: nat) \<in> {9, 10, 11, 12, 13, 32, 160})"

definition trim :: "string \<Rightarrow> string" where
  "trim s = rev (dropWhile is_space (rev (dropWhile is_space s)))"

definition substring :: "string \<Rightarrow> nat \<Rightarrow> nat \<Rightarrow> string" where
  "substring s a b = take (b - a) (drop a s)"

definition substring_from :: "string \<Rightarrow> nat \<Rightarrow> string" where
  "substring_from s a = drop a s"

section \<open>Dictionary attributes and the configuration derived from them\<close>

text \<open>
  The attributes are those of the header's XML element as \<open>read_header_sect\<close> leaves them:
  \<open>GeneratedByEngineVersion\<close> holds \<open>parseInt(attrs.GeneratedByEngineVersion, 10)\<close> (\<open>None\<close> for
  \<open>NaN\<close>) and \<open>Encrypted\<close> holds \<open>parseInt(attrs.Encrypted, 10) || 0\<close>.
  \<^verbatim>\<open>
  function isTrue(v) {
    v = ((v || false) + '').toLowerCase();
    return v === 'yes' || v === 'true';
  }
  var REGEXP_STRIPKEY = /[,. '_-]/g;
  \<close>
\<close>

record attrs =
  Encoding :: "string option"
  GeneratedByEngineVersion :: "int option"
  Encrypted :: int
  KeyCaseSensitive :: "string option"
  StripKey :: "string option"

definition isTrue :: "string option \<Rightarrow> bool" where
  "isTrue v =
     (let v = toLowerCase (case v of None \<Rightarrow> ''false'' | Some t \<Rightarrow> if t = [] then ''false'' else t)
      in v = ''yes'' \<or> v = ''true'')"

definition stripKey_chars :: "string \<Rightarrow> string" where
  "stripKey_chars key = filter (\<lambda>c. c \<notin> set '',. '' \<and> c \<noteq> CHR 0x27 \<and> c \<notin> set ''_-'') key"

text \<open>
  \<^verbatim>\<open>
  attrs.Encoding = attrs.Encoding || 'UTF-16';
  _decoder = new TextDecoder(attrs.Encoding || 'UTF-16LE');
  _bpu = (attrs.Encoding === 'UTF-16') ? 2 : 1;
  if (parseInt(attrs.GeneratedByEngineVersion, 10) >= 2.0) {
    _v2 = true;
    _tail = _bpu;
    ...
  } else {
    _tail = 0;
  }
  if (attrs.Encrypted & 0x02) { _decryptors[1] = decrypt; }
  if (isTrue(attrs.KeyCaseSensitive)) {
    _adaptKey = isTrue(attrs.StripKey)
                  ? function(key) { return key.replace(REGEXP_STRIPKEY, ''); }
                  : function(key) { return key; };
  } else {
    _adaptKey = isTrue(attrs.StripKey)
                  ? function(key) { return key.toLowerCase().replace(REGEXP_STRIPKEY, ''); }
                  : function(key) { return key.toLowerCase(); };
  }
  \<close>
\<close>

definition encoding :: "attrs \<Rightarrow> string" where
  "encoding a = (case Encoding a of None \<Rightarrow> ''UTF-16'' | Some e \<Rightarrow> if e = [] then ''UTF-16'' else e)"

definition utf16 :: "attrs \<Rightarrow> bool" where
  "utf16 a = (encoding a = ''UTF-16'')"

definition bpu :: "attrs \<Rightarrow> int" where
  "bpu a = (if utf16 a then 2 else 1)"

definition v2 :: "attrs \<Rightarrow> bool" where
  "v2 a = (case GeneratedByEngineVersion a of None \<Rightarrow> False | Some n \<Rightarrow> 2 \<le> n)"

definition tail :: "attrs \<Rightarrow> int" where
  "tail a = (if v2 a then bpu a else 0)"

definition decoder :: "ext \<Rightarrow> attrs \<Rightarrow> byte list \<Rightarrow> string" where
  "decoder x a = decode x (encoding a)"

definition adaptKey :: "attrs \<Rightarrow> string \<Rightarrow> string" where
  "adaptKey a key =
     (if isTrue (KeyCaseSensitive a)
      then (if isTrue (StripKey a) then stripKey_chars key else key)
      else (if isTrue (StripKey a) then stripKey_chars (toLowerCase key) else toLowerCase key))"

text \<open>
  The keyword-index decryptor \<open>_decryptors[1]\<close>: \<open>decrypt\<close> when bit 1 of \<open>Encrypted\<close> is set.
  A decryptor works in place: it returns the array it was given, with new contents.
\<close>

definition decryptor1 :: "ext \<Rightarrow> attrs \<Rightarrow> (byte list \<Rightarrow> byte list \<Rightarrow> byte list) option" where
  "decryptor1 x a = (if (Encrypted a) AND 2 \<noteq> 0 then Some (decrypt x) else None)"

section \<open>Scanner\<close>

text \<open>
  A scanner is a cursor (\<open>offset\<close>) over an \<open>ArrayBuffer\<close> (\<open>buf\<close>). Its operations are
  state transformers: each returns its result or the exception it throws, and the
  scanner as the call leaves it. The buffer is part of the state because \<open>readBlock\<close>
  decrypts in place. \<open>Scanner(buf, len)\<close> keeps \<open>len\<close> for \<open>size()\<close> only, which nothing
  calls; the embedding leaves both out.

  \<open>new Uint8Array(buf, pos, n)\<close> and the \<open>DataView\<close> getters throw a \<open>RangeError\<close> unless
  \<open>0 \<le> pos\<close>, \<open>0 \<le> n\<close> and \<open>pos + n \<le> buf.byteLength\<close>. The getters read big endian.
\<close>

record scanner =
  buf :: "byte list"
  offset :: int

type_synonym 'a io = "scanner \<Rightarrow> (reason + 'a) \<times> scanner"

definition Scanner :: "byte list \<Rightarrow> scanner" where
  "Scanner b = \<lparr>buf = b, offset = 0\<rparr>"

definition view_bytes :: "byte list \<Rightarrow> int \<Rightarrow> int \<Rightarrow> reason + byte list" where
  "view_bytes b pos n =
     (if 0 \<le> pos \<and> 0 \<le> n \<and> pos + n \<le> int (length b)
      then Inr (take (nat n) (drop (nat pos) b)) else Inl RangeError)"

definition be_uint :: "byte list \<Rightarrow> int" where
  "be_uint bs = foldl (\<lambda>acc b. acc * 256 + uint b) 0 bs"

definition getUint :: "nat \<Rightarrow> byte list \<Rightarrow> int \<Rightarrow> reason + int" where
  "getUint n b pos = map_sum id be_uint (view_bytes b pos (int n))"

definition forward :: "int \<Rightarrow> scanner \<Rightarrow> scanner" where
  "forward n s = s\<lparr>offset := offset s + n\<rparr>"

text \<open>
  \<open>conseq(read, this.forward(n))\<close>: the read is evaluated first; when it throws, the
  cursor has not moved.
\<close>

definition conseq :: "reason + 'a \<Rightarrow> int \<Rightarrow> 'a io" where
  "conseq r n s = (case r of Inl e \<Rightarrow> (Inl e, s) | Inr v \<Rightarrow> (Inr v, forward n s))"

definition readInt :: "int io" where
  "readInt s = conseq (getUint 4 (buf s) (offset s)) 4 s"

definition readUint16 :: "int io" where
  "readUint16 s = conseq (getUint 2 (buf s) (offset s)) 2 s"

definition readUint8 :: "int io" where
  "readUint8 s = conseq (getUint 1 (buf s) (offset s)) 1 s"

text \<open>
  \<^verbatim>\<open>
  _readShort = function(scanner) { return scanner.readUint8(); },
  _readNum   = function(scanner) { return scanner.readInt(); },
  // version >= 2
  _readNum   = function(scanner) { return scanner.forward(4), scanner.readInt(); };
  _readShort = function(scanner) { return scanner.readUint16(); };
  \<close>
\<close>

definition readShort :: "attrs \<Rightarrow> int io" where
  "readShort a s = (if v2 a then readUint16 s else readUint8 s)"

definition readNum :: "attrs \<Rightarrow> int io" where
  "readNum a s = (if v2 a then readInt (forward 4 s) else readInt s)"

definition readUTF16 :: "ext \<Rightarrow> int \<Rightarrow> string io" where
  "readUTF16 x len s =
     conseq (map_sum id (decode x ''utf-16le'') (view_bytes (buf s) (offset s) len)) len s"

text \<open>
  \<^verbatim>\<open>
  _searchTextLen = (attrs.Encoding === 'UTF-16')
      ?   function(dv, offset) {
            var mark = offset;
            while (dv.getUint16(offset++)) { /* scan for NUL */ };
            return offset - mark;
      } : function(dv, offset) {
            var mark = offset;
            while (dv.getUint8(offset++)) { /* scan for NUL */ }
            return offset - mark - 1;
      };
  \<close>
  \<open>search_nul n b off\<close> is the value of \<open>offset\<close> when the loop over \<open>n\<close>-byte reads ends.
\<close>

function search_nul :: "nat \<Rightarrow> byte list \<Rightarrow> int \<Rightarrow> reason + int" where
  "search_nul n b off =
     (case getUint n b off of
        Inl e \<Rightarrow> Inl e
      | Inr v \<Rightarrow> if v \<noteq> 0 then search_nul n b (off + 1) else Inr (off + 1))"
  by pat_completeness auto
termination
  by (relation "measure (\<lambda>(n, b, off). nat (int (length b) + 1 - off))")
     (auto simp add: getUint_def view_bytes_def split: if_splits)

declare search_nul.simps [simp del]

definition searchTextLen :: "attrs \<Rightarrow> byte list \<Rightarrow> int \<Rightarrow> reason + int" where
  "searchTextLen a b off =
     (if utf16 a then map_sum id (\<lambda>e. e - off) (search_nul 2 b off)
      else map_sum id (\<lambda>e. e - off - 1) (search_nul 1 b off))"

text \<open>
  \<^verbatim>\<open>
  readText: function() {
    var len = _searchTextLen(dv, offset);
    return conseq(_decoder.decode(new Uint8Array(buf, offset, len)), this.forward(len + _bpu));
  },
  readTextSized: function(len) {
    len *= _bpu;
    return conseq(_decoder.decode(new Uint8Array(buf, offset, len)), this.forward(len + _tail));
  },
  checksum: function() { this.forward(4); },
  readRaw: function(len) {
    return conseq(new Uint8Array(buf, offset, len),
                  this.forward(len === UNDEFINED ? buf.byteLength - offset : len));
  },
  \<close>
\<close>

definition readText :: "ext \<Rightarrow> attrs \<Rightarrow> string io" where
  "readText x a s =
     (case searchTextLen a (buf s) (offset s) of
        Inl e \<Rightarrow> (Inl e, s)
      | Inr len \<Rightarrow>
          conseq (map_sum id (decoder x a) (view_bytes (buf s) (offset s) len)) (len + bpu a) s)"

definition readTextSized :: "ext \<Rightarrow> attrs \<Rightarrow> int \<Rightarrow> string io" where
  "readTextSized x a len s =
     (let len = len * bpu a
      in conseq (map_sum id (decoder x a) (view_bytes (buf s) (offset s) len)) (len + tail a) s)"

definition checksum :: "unit io" where
  "checksum s = (Inr (), forward 4 s)"

definition readRaw :: "int option \<Rightarrow> (byte list) io" where
  "readRaw len s =
     (case len of
        Some n \<Rightarrow> conseq (view_bytes (buf s) (offset s) n) n s
      | None \<Rightarrow>
          conseq (view_bytes (buf s) (offset s) (int (length (buf s)) - offset s))
                 (int (length (buf s)) - offset s) s)"

text \<open>
  \<^verbatim>\<open>
  readBlock: function(len, expectedBufSize, decryptor) {
    var comp_type = dv.getUint8(offset, false);  // compression type, 0 = non, 1 = lzo, 2 = gzip
    if (comp_type === 0) {
      if (_v2) {
        this.forward(8);  // for version >= 2, skip comp_type (4 bytes with tailing \x00) and checksum (4 bytes)
      }
      return this;
    } else {
      // skip comp_type (4 bytes with tailing \x00) and checksum (4 bytes)
      offset += 8; len -= 8;
      var tmp = new Uint8Array(buf, offset, len);
      if (decryptor) {
        var passkey = new Uint8Array(8);
        passkey.set(new Uint8Array(buf, offset - 4, 4));
        passkey.set([0x95, 0x36, 0x00, 0x00], 4);
        tmp = decryptor(tmp, passkey);
      }
      tmp = comp_type === 2 ? pako.inflate(tmp) : lzo.decompress(tmp, expectedBufSize, 4096);
      this.forward(len);
      return Scanner(tmp.buffer, tmp.byteLength);
    }
  },
  \<close>
  \<open>tmp\<close> is a view of \<open>buf\<close>: what the decryptor writes into it is written into the
  buffer (\<open>write_at\<close>). The result is the scanner returned and the scanner called as the
  call leaves it; they are the same scanner when the block is not compressed. The codecs
  return an array that fills its own buffer.
\<close>

definition write_at :: "byte list \<Rightarrow> nat \<Rightarrow> byte list \<Rightarrow> byte list" where
  "write_at b pos bs = take pos b @ take (length b - pos) bs @ drop (pos + length bs) b"

definition passkey_of :: "byte list \<Rightarrow> int \<Rightarrow> byte list" where
  "passkey_of b off = take 4 (drop (nat (off - 4)) b) @ [0x95, 0x36, 0x00, 0x00]"

definition readBlock ::
  "ext \<Rightarrow> attrs \<Rightarrow> int \<Rightarrow> int option \<Rightarrow> (byte list \<Rightarrow> byte list \<Rightarrow> byte list) option \<Rightarrow> scanner io"
where
  "readBlock x a len expectedBufSize decryptor s =
     (case getUint 1 (buf s) (offset s) of
        Inl e \<Rightarrow> (Inl e, s)
      | Inr comp_type \<Rightarrow>
          if comp_type = 0
          then (let s = (if v2 a then forward 8 s else s) in (Inr s, s))
          else
            (let s = forward 8 s; len = len - 8
             in case view_bytes (buf s) (offset s) len of
                  Inl e \<Rightarrow> (Inl e, s)
                | Inr tmp \<Rightarrow>
                    (let (tmp, s) =
                           (case decryptor of
                              None \<Rightarrow> (tmp, s)
                            | Some d \<Rightarrow>
                                (let tmp = d tmp (passkey_of (buf s) (offset s))
                                 in (tmp, s\<lparr>buf := write_at (buf s) (nat (offset s)) tmp\<rparr>)))
                     in case (if comp_type = 2 then inflate x tmp
                              else lzo_decompress x tmp expectedBufSize) of
                          None \<Rightarrow> (Inl CodecError, s)
                        | Some out \<Rightarrow> (Inr (Scanner out), forward len s))))"

section \<open>Key table\<close>

text \<open>
  \<^verbatim>\<open>
  var hash = (function(seed) {
    return function hash(str) { return MurmurHash3.hashString(str.toLowerCase(), 32, seed); }
  })(_HASH_SEED);
  \<close>
\<close>

definition hash :: "ext \<Rightarrow> string \<Rightarrow> 32 word" where
  "hash x str = hashString x (toLowerCase str)"

text \<open>
  \<open>view\<close> is the \<open>Uint32Array\<close> over the \<open>Float64Array arr\<close>: element \<open>2 * i\<close> is the hash
  and element \<open>2 * i + 1\<close> the ordinal of entry \<open>i\<close>, so \<open>arr.length\<close> is half of
  \<open>view.length\<close>. \<open>kdata\<close> is \<open>data\<close>, the record offsets by ordinal. A store past the end
  of a typed array is ignored, a read past the end (or before 0) is \<open>undefined\<close>.
  \<^verbatim>\<open>
  alloc:  function(len) {
            arr = new Float64Array(len);
            view = new Uint32Array(arr.buffer);
            data = new Uint32Array(len);
          },
  put:    function(offset, key) {
            data[order] = offset;             // offset of the corresponding record
            view[pos++] = hash(key);          // hash code of key
            view[pos++] = order++;            // original key order
          },
  pack:   function() {
            if (order < data.length) {
              arr = new Float64Array(arr.buffer.slice(0, pos << 2));
              view = new Uint32Array(arr.buffer);;
              data = new Uint32Array(data.buffer.slice(0, order * Uint32Array.BYTES_PER_ELEMENT));
            }
            return view;
          },
  sort:   function() {
            this.pack();
            Array.prototype.sort.call(arr, function(f1, f2) { return F64[0] = f1, F64[1] = f2, U32[0] - U32[2]; });
            ready = true;
          },
  \<close>
  The comparison orders the entries by their hashes, read as unsigned numbers; which of
  two entries with one hash comes first is left to the engine's \<open>sort\<close>. The embedding
  sorts stably. \<open>sort\<close> moves the entries as \<open>float64\<close> values; the embedding moves their
  bits, as an engine does for every entry that is not a NaN (an ordinal below
  \<open>0x7FF00000\<close>).
\<close>

record key_table =
  ready :: bool
  kpos :: nat
  korder :: nat
  view :: "32 word list"
  kdata :: "32 word list"

definition createKeyTable :: key_table where
  "createKeyTable = \<lparr>ready = False, kpos = 0, korder = 0, view = [], kdata = []\<rparr>"

definition kt_alloc :: "nat \<Rightarrow> key_table \<Rightarrow> key_table" where
  "kt_alloc len t = t\<lparr>view := replicate (2 * len) 0, kdata := replicate len 0\<rparr>"

definition kt_put :: "ext \<Rightarrow> int \<Rightarrow> string \<Rightarrow> key_table \<Rightarrow> key_table" where
  "kt_put x off key t =
     t\<lparr>kdata := (kdata t)[korder t := word_of_int off],
       view := (view t)[kpos t := hash x key, kpos t + 1 := word_of_nat (korder t)],
       kpos := kpos t + 2,
       korder := korder t + 1\<rparr>"

definition kt_pack :: "key_table \<Rightarrow> key_table" where
  "kt_pack t =
     (if korder t < length (kdata t)
      then t\<lparr>view := take (kpos t) (view t), kdata := take (korder t) (kdata t)\<rparr>
      else t)"

fun pairs_of :: "'a list \<Rightarrow> ('a \<times> 'a) list" where
  "pairs_of (h # k # rest) = (h, k) # pairs_of rest"
| "pairs_of _ = []"

fun flat_of :: "('a \<times> 'a) list \<Rightarrow> 'a list" where
  "flat_of [] = []"
| "flat_of ((h, k) # rest) = h # k # flat_of rest"

definition kt_sort :: "key_table \<Rightarrow> key_table" where
  "kt_sort t =
     (let t = kt_pack t
      in t\<lparr>view := flat_of (sort_key fst (pairs_of (view t))), ready := True\<rparr>)"

text \<open>
  \<^verbatim>\<open>
  find:   function(key) {
            U32[0] = hash(key); // covert negative value to two's complement if necessary
            var hashcode = U32[0], hi = arr.length - 1, lo = 0, i = (lo + hi) >> 1, val = view[i << 1];
            while (true) {
              if (hashcode === val) {
                // return all possible keys with the same hash code
                while (true) {
                  if (view[--i << 1] !== hashcode) {
                    i++;
                    break;
                  }
                }
                var result = [];
                while (true) {
                  var at = view[(i << 1) + 1];
                  // NOTE: size of the last record is not required so leaving it with value of undefined.
                  result.push({offset: data[at], size: at < data.length - 2 ? data[at + 1] - data[at] : UNDEFINED});
                  if (view[++i << 1] !== hashcode) {
                    break;
                  }
                }
                return result;
              } else if (hi === lo || i === hi || i === lo) {
                return;
              }
              (hashcode < val) ? hi = i : lo = i;
              i = (lo + hi) >> 1;
              val = view[i << 1];
            }
          },
  \<close>
\<close>

record keyinfo =
  ki_offset :: "int option"
  ki_size :: "int option"

definition u32_at :: "32 word list \<Rightarrow> int \<Rightarrow> int option" where
  "u32_at ar k = (if 0 \<le> k \<and> k < int (length ar) then Some (uint (ar ! nat k)) else None)"

definition keyinfo_at :: "32 word list \<Rightarrow> int option \<Rightarrow> keyinfo" where
  "keyinfo_at dt at =
     (case at of
        None \<Rightarrow> \<lparr>ki_offset = None, ki_size = None\<rparr>
      | Some at \<Rightarrow>
          \<lparr>ki_offset = u32_at dt at,
           ki_size = (if at < int (length dt) - 2
                      then Some (the (u32_at dt (at + 1)) - the (u32_at dt at))
                      else None)\<rparr>)"

function first_same :: "32 word list \<Rightarrow> int \<Rightarrow> int \<Rightarrow> int" where
  "first_same vw hashcode i =
     (if u32_at vw (2 * (i - 1)) \<noteq> Some hashcode then i
      else first_same vw hashcode (i - 1))"
  by pat_completeness auto
termination
  by (relation "measure (\<lambda>(vw, hashcode, i). nat i)")
     (auto simp add: u32_at_def split: if_splits)

declare first_same.simps [simp del]

function collect_same :: "32 word list \<Rightarrow> 32 word list \<Rightarrow> int \<Rightarrow> int \<Rightarrow> keyinfo list" where
  "collect_same vw dt hashcode i =
     keyinfo_at dt (u32_at vw (2 * i + 1)) #
     (if u32_at vw (2 * (i + 1)) \<noteq> Some hashcode then []
      else collect_same vw dt hashcode (i + 1))"
  by pat_completeness auto
termination
  by (relation "measure (\<lambda>(vw, dt, hashcode, i). nat (int (length vw) - 2 * i))")
     (auto simp add: u32_at_def split: if_splits)

declare collect_same.simps [simp del]

function find_loop :: "32 word list \<Rightarrow> 32 word list \<Rightarrow> int \<Rightarrow> int \<Rightarrow> int \<Rightarrow> keyinfo list option" where
  "find_loop vw dt hashcode lo hi =
     (let i = (lo + hi) div 2; val = u32_at vw (2 * i)
      in if val = Some hashcode
         then Some (collect_same vw dt hashcode (first_same vw hashcode i))
         else if hi = lo \<or> i = hi \<or> i = lo then None
         else if (case val of None \<Rightarrow> False | Some v \<Rightarrow> hashcode < v)
              then find_loop vw dt hashcode lo i
              else find_loop vw dt hashcode i hi)"
  by pat_completeness auto
termination
  by (relation "measure (\<lambda>(vw, dt, hashcode, lo, hi). nat \<bar>hi - lo\<bar>)") auto

declare find_loop.simps [simp del]

definition kt_find :: "ext \<Rightarrow> key_table \<Rightarrow> string \<Rightarrow> keyinfo list option" where
  "kt_find x t key =
     find_loop (view t) (kdata t) (uint (hash x key)) 0 (int (length (view t) div 2) - 1)"

definition isReady :: "key_table \<Rightarrow> bool" where
  "isReady t = ready t"

section \<open>Record block table\<close>

text \<open>
  \<^verbatim>\<open>
  alloc:  function(len) {
            arr = new Uint32Array(len * 2);
          },
  put:    function(offset_comp, offset_decomp) {
            arr[pos++] = offset_comp; arr[pos++] = offset_decomp;
          },
  find:   function(keyAt) {
            var hi = (arr.length >> 1) - 1, lo = 0, i = (lo + hi) >> 1, val = arr[(i << 1) + 1];
            if (keyAt > arr[(hi << 1) + 1] || keyAt < 0) {
              return;
            }
            while (true) {
              if (hi - lo <= 1) {
                if (i < hi) {
                  return {
                    block_no:     i,
                    comp_offset:  arr[i <<= 1],
                    comp_size:    arr[i + 2] - arr[i],
                    decomp_offset:arr[i + 1],
                    decomp_size:  arr[i + 3] - arr[i + 1]
                  };
                } else {
                  return;
                }
              }
              (keyAt < val)  ? hi = i : lo = i;
              i = (lo + hi) >> 1;
              val = arr[(i << 1) + 1];
            }
          },
  \<close>
  A comparison with \<open>undefined\<close> is false.
\<close>

record record_block_table =
  rpos :: nat
  arr :: "32 word list"

definition createRecordBlockTable :: record_block_table where
  "createRecordBlockTable = \<lparr>rpos = 0, arr = []\<rparr>"

definition rb_alloc :: "nat \<Rightarrow> record_block_table \<Rightarrow> record_block_table" where
  "rb_alloc len t = t\<lparr>arr := replicate (len * 2) 0\<rparr>"

definition rb_put :: "int \<Rightarrow> int \<Rightarrow> record_block_table \<Rightarrow> record_block_table" where
  "rb_put offset_comp offset_decomp t =
     t\<lparr>arr := (arr t)[rpos t := word_of_int offset_comp, rpos t + 1 := word_of_int offset_decomp],
       rpos := rpos t + 2\<rparr>"

record block =
  block_no :: int
  comp_offset :: int
  comp_size :: int
  decomp_offset :: int
  decomp_size :: int

definition block_at :: "32 word list \<Rightarrow> int \<Rightarrow> block" where
  "block_at ar i =
     (let i2 = 2 * i
      in \<lparr>block_no = i,
          comp_offset = the (u32_at ar i2),
          comp_size = the (u32_at ar (i2 + 2)) - the (u32_at ar i2),
          decomp_offset = the (u32_at ar (i2 + 1)),
          decomp_size = the (u32_at ar (i2 + 3)) - the (u32_at ar (i2 + 1))\<rparr>)"

function rb_find_loop :: "32 word list \<Rightarrow> int \<Rightarrow> int \<Rightarrow> int \<Rightarrow> block option" where
  "rb_find_loop ar keyAt lo hi =
     (let i = (lo + hi) div 2; val = u32_at ar (2 * i + 1)
      in if hi - lo \<le> 1
         then (if i < hi then Some (block_at ar i) else None)
         else if (case val of None \<Rightarrow> False | Some v \<Rightarrow> keyAt < v)
              then rb_find_loop ar keyAt lo i
              else rb_find_loop ar keyAt i hi)"
  by pat_completeness auto
termination
  by (relation "measure (\<lambda>(ar, keyAt, lo, hi). nat (hi - lo))") auto

declare rb_find_loop.simps [simp del]

definition rb_find :: "record_block_table \<Rightarrow> int \<Rightarrow> block option" where
  "rb_find t keyAt =
     (let hi = int (length (arr t) div 2) - 1
      in if (case u32_at (arr t) (2 * hi + 1) of None \<Rightarrow> False | Some v \<Rightarrow> keyAt > v) \<or> keyAt < 0
         then None
         else rb_find_loop (arr t) keyAt 0 hi)"

text \<open>
  The loop of \<open>read_record_block\<close>, for the sizes \<open>(comp_size, decomp_size)\<close> it reads
  from the record block index:
  \<^verbatim>\<open>
  RECORD_BLOCK_TABLE.alloc(size + 1);
  for (var i = 0, rdx; i < size; i++) {
    record_index[i] = rdx = {
      comp_size:   scanner.readNum(),
      decomp_size: scanner.readNum()
    };
    RECORD_BLOCK_TABLE.put(p0, p1);
    p0 += rdx.comp_size;
    p1 += rdx.decomp_size;
  }
  RECORD_BLOCK_TABLE.put(p0, p1);
  \<close>
\<close>

fun put_blocks :: "int \<Rightarrow> int \<Rightarrow> (int \<times> int) list \<Rightarrow> record_block_table \<Rightarrow> record_block_table" where
  "put_blocks p0 p1 [] t = rb_put p0 p1 t"
| "put_blocks p0 p1 ((csize, dsize) # rest) t =
     put_blocks (p0 + csize) (p1 + dsize) rest (rb_put p0 p1 t)"

definition fill_record_block_table :: "int \<Rightarrow> (int \<times> int) list \<Rightarrow> record_block_table" where
  "fill_record_block_table block_pos sizes =
     put_blocks block_pos 0 sizes (rb_alloc (length sizes + 1) createRecordBlockTable)"

text \<open>
  The offsets before block \<open>k\<close> are the sums of the sizes of the blocks before it. The
  table holds them as they are while they fit its 32-bit elements (\<open>addressable\<close>): the
  reader does not support files of 4 GiB or more.
\<close>

definition comp_before :: "(int \<times> int) list \<Rightarrow> nat \<Rightarrow> int" where
  "comp_before sizes k = sum_list (map fst (take k sizes))"

definition decomp_before :: "(int \<times> int) list \<Rightarrow> nat \<Rightarrow> int" where
  "decomp_before sizes k = sum_list (map snd (take k sizes))"

definition addressable :: "int \<Rightarrow> (int \<times> int) list \<Rightarrow> bool" where
  "addressable block_pos sizes =
     (0 \<le> block_pos \<and> list_all (\<lambda>(c, d). 0 \<le> c \<and> 0 \<le> d) sizes \<and>
      block_pos + comp_before sizes (length sizes) < 2 ^ 32 \<and>
      decomp_before sizes (length sizes) < 2 ^ 32)"

section \<open>Lookup engine\<close>

text \<open>
  A parsed dictionary: its attributes, the file, the keyword index \<open>KEY_INDEX\<close>, the two
  tables, and \<open>_last_keys\<close>, the cache of the key block loaded last (its list and the
  first word of its block).
\<close>

record kdx =
  kdx_num_entries :: int
  kdx_first_word :: string
  kdx_last_word :: string
  kdx_comp_size :: int
  kdx_decomp_size :: int
  kdx_offset :: int
  kdx_index :: int

text \<open>A key of a loaded key block: a \<open>String\<close> object with the properties \<open>offset\<close> and \<open>size\<close>.\<close>

record keyobj =
  key_text :: string
  key_offset :: int
  key_size :: "int option"

record mdict =
  attrs_of :: attrs
  file_of :: "byte list"
  KEY_INDEX :: "kdx list"
  KEY_TABLE :: key_table
  RECORD_BLOCK_TABLE :: record_block_table
  last_keys :: "(keyobj list \<times> string) option"

text \<open>
  What a lookup resolves to: a definition's text, a resource's bytes, or the array that
  \<open>harvest\<close> resolves to. A lookup returns a promise that resolves or rejects, or throws
  before it returns one.
\<close>

datatype jsvalue = Text string | Bytes "byte list" | Items "jsvalue list"

datatype outcome = Resolved jsvalue | Rejected reason | Thrown reason

text \<open>
  \<open>Array.prototype.slice\<close> and \<open>Blob.slice\<close> clamp their bounds to the length and count a
  negative bound from the end. \<open>sliceThen(file, offset, len)\<close> reads
  \<open>file.slice(offset, offset + len)\<close>; the read always succeeds.
\<close>

definition js_slice :: "'a list \<Rightarrow> int \<Rightarrow> int \<Rightarrow> 'a list" where
  "js_slice xs start fin =
     (let n = int (length xs);
          k = (if start < 0 then max (n + start) 0 else min start n);
          e = (if fin < 0 then max (n + fin) 0 else min fin n)
      in take (nat (e - k)) (drop (nat k) xs))"

definition sliceThen :: "byte list \<Rightarrow> int \<Rightarrow> int \<Rightarrow> byte list" where
  "sliceThen f off len = js_slice f off (off + len)"

definition nth_opt :: "'a list \<Rightarrow> int \<Rightarrow> 'a option" where
  "nth_opt xs k = (if 0 \<le> k \<and> k < int (length xs) then Some (xs ! nat k) else None)"

text \<open>
  \<^verbatim>\<open>
  function read_definition(input, block, keyinfo) {
    var scanner = Scanner(input).readBlock(block.comp_size);
    scanner.forward(keyinfo.offset - block.decomp_offset);
    return scanner.readText();
  }
  function read_object(input, block, keyinfo) {
    var scanner = Scanner(input).readBlock(block.comp_size);
    scanner.forward(keyinfo.offset - block.decomp_offset);
    return scanner.readRaw(keyinfo.size);
  }
  \<close>
  A keyinfo whose \<open>offset\<close> is \<open>undefined\<close> would make the cursor \<open>NaN\<close>; the embedding
  stops there with \<open>NaNCursor\<close>.
\<close>

definition read_definition :: "ext \<Rightarrow> attrs \<Rightarrow> byte list \<Rightarrow> block \<Rightarrow> keyinfo \<Rightarrow> reason + string" where
  "read_definition x a input blk keyinfo =
     (case readBlock x a (comp_size blk) None None (Scanner input) of
        (Inl e, _) \<Rightarrow> Inl e
      | (Inr scanner, _) \<Rightarrow>
          (case ki_offset keyinfo of
             None \<Rightarrow> Inl NaNCursor
           | Some off \<Rightarrow> fst (readText x a (forward (off - decomp_offset blk) scanner))))"

definition read_object :: "ext \<Rightarrow> attrs \<Rightarrow> byte list \<Rightarrow> block \<Rightarrow> keyinfo \<Rightarrow> reason + byte list" where
  "read_object x a input blk keyinfo =
     (case readBlock x a (comp_size blk) None None (Scanner input) of
        (Inl e, _) \<Rightarrow> Inl e
      | (Inr scanner, _) \<Rightarrow>
          (case ki_offset keyinfo of
             None \<Rightarrow> Inl NaNCursor
           | Some off \<Rightarrow> fst (readRaw (ki_size keyinfo) (forward (off - decomp_offset blk) scanner))))"

text \<open>
  \<^verbatim>\<open>
  function harvest(outcomes) {
    return Promise.settle(outcomes).then(function(results) {
      if (results.length === 0) {
        return reject("** NOT FOUND **");
      }
      var solved = [], failed = [];
      for (var i = 0; i < results.length; i++) {
        if (results[i].isResolved()) {
          solved.push(results[i].value());
        } else {
          failed.push(results[i].reason());
        }
      }
      return solved.length ? solved : failed;
    });
  }
  \<close>
  \<open>Promise\<close> is the \<open>bluebird\<close> library that the module is loaded with, the one library that
  has \<open>Promise.settle\<close>. \<open>isResolved()\<close> of its inspections is true of every settled promise,
  fulfilled or rejected, and \<open>value()\<close> throws a \<open>TypeError\<close> when the promise is not
  fulfilled. So the \<open>else\<close> branch is never taken and \<open>failed\<close> stays empty: when every
  outcome is fulfilled the harvest resolves with their values, and when one is rejected
  the callback throws and the harvest is rejected with that \<open>TypeError\<close>.
\<close>

fun values_of :: "outcome list \<Rightarrow> reason + jsvalue list" where
  "values_of [] = Inr []"
| "values_of (Resolved v # rest) =
     (case values_of rest of Inl e \<Rightarrow> Inl e | Inr solved \<Rightarrow> Inr (v # solved))"
| "values_of (_ # rest) = Inl TypeError"

definition harvest :: "outcome list \<Rightarrow> outcome" where
  "harvest outcomes =
     (if length outcomes = 0 then Rejected (Message ''** NOT FOUND **'')
      else (case values_of outcomes of
              Inl e \<Rightarrow> Rejected e
            | Inr solved \<Rightarrow> Resolved (Items (if length solved \<noteq> 0 then solved else []))))"

text \<open>
  \<^verbatim>\<open>
  function followLink(definition, lookup) {
    return (definition.substring(0, 8) !== '@@@LINK=')
              ? definition
              : lookup(definition.substring(8));
  }
  function findWord(keyinfo) {
    var block = RECORD_BLOCK_TABLE.find(keyinfo.offset);
    return _slice(block.comp_offset, block.comp_size)
              .exec(read_definition, block, keyinfo)
                .spread(function (definition) { return resolve(followLink(definition, LOOKUP.mdx)); });
  }
  function findResource(keyinfo) {
    var block = RECORD_BLOCK_TABLE.find(keyinfo.offset);
    return _slice(block.comp_offset, block.comp_size)
              .exec(read_object, block, keyinfo)
                .spread(function (blob) { return resolve(blob); });
  }
  \<close>
  A lookup may never settle (a chain of links may never end), so lookups return an
  \<open>option\<close>: \<open>None\<close> when the promise never settles. \<open>followLink\<close> is given the lookup
  function as in the source. Reading \<open>block.comp_offset\<close> throws a \<open>TypeError\<close> when
  \<open>find\<close> returned \<open>undefined\<close> (\<open>findWord_block\<close>); the rest of \<open>findWord\<close> runs in
  promise callbacks, where an exception rejects the promise (\<open>findWord_then\<close>).
\<close>

type_synonym 'a lookup = "mdict \<Rightarrow> ('a \<times> mdict) option"

definition followLink :: "string \<Rightarrow> (string \<Rightarrow> outcome lookup) \<Rightarrow> outcome lookup" where
  "followLink definition lookup d =
     (if substring definition 0 8 \<noteq> ''@@@LINK='' then Some (Resolved (Text definition), d)
      else lookup (substring_from definition 8) d)"

definition findWord_block :: "mdict \<Rightarrow> keyinfo \<Rightarrow> reason + block" where
  "findWord_block d keyinfo =
     (case ki_offset keyinfo of
        None \<Rightarrow> Inl NaNCursor
      | Some off \<Rightarrow>
          (case rb_find (RECORD_BLOCK_TABLE d) off of None \<Rightarrow> Inl TypeError | Some blk \<Rightarrow> Inr blk))"

definition unthrown :: "outcome \<Rightarrow> outcome" where
  "unthrown r = (case r of Thrown e \<Rightarrow> Rejected e | _ \<Rightarrow> r)"

definition findWord_then ::
  "ext \<Rightarrow> (string \<Rightarrow> outcome lookup) \<Rightarrow> block \<times> keyinfo \<Rightarrow> outcome lookup" where
  "findWord_then x lookup bk d =
     (case read_definition x (attrs_of d)
             (sliceThen (file_of d) (comp_offset (fst bk)) (comp_size (fst bk))) (fst bk) (snd bk) of
        Inl e \<Rightarrow> Some (Rejected e, d)
      | Inr definition \<Rightarrow> map_option (map_prod unthrown id) (followLink definition lookup d))"

definition findResource_then :: "ext \<Rightarrow> mdict \<Rightarrow> block \<Rightarrow> keyinfo \<Rightarrow> outcome" where
  "findResource_then x d blk keyinfo =
     (case read_object x (attrs_of d)
             (sliceThen (file_of d) (comp_offset blk) (comp_size blk)) blk keyinfo of
        Inl e \<Rightarrow> Rejected e
      | Inr blob \<Rightarrow> Resolved (Bytes blob))"

text \<open>
  \<open>infos.map(findWord)\<close>: the calls run first, each up to its file read, and a
  \<open>TypeError\<close> of any of them leaves \<open>map\<close>; then the promises settle. The embedding runs
  the promise chains one after the other, in the order of the calls.
\<close>

fun blocks_for :: "mdict \<Rightarrow> keyinfo list \<Rightarrow> reason + (block \<times> keyinfo) list" where
  "blocks_for d [] = Inr []"
| "blocks_for d (k # ks) =
     (case findWord_block d k of
        Inl e \<Rightarrow> Inl e
      | Inr blk \<Rightarrow> (case blocks_for d ks of Inl e \<Rightarrow> Inl e | Inr rest \<Rightarrow> Inr ((blk, k) # rest)))"

fun settle_all :: "('k \<Rightarrow> outcome lookup) \<Rightarrow> 'k list \<Rightarrow> (outcome list) lookup" where
  "settle_all f [] d = Some ([], d)"
| "settle_all f (k # ks) d =
     (case f k d of
        None \<Rightarrow> None
      | Some (r, d) \<Rightarrow>
          (case settle_all f ks d of None \<Rightarrow> None | Some (rs, d) \<Rightarrow> Some (r # rs, d)))"

definition map_findWord ::
  "ext \<Rightarrow> (string \<Rightarrow> outcome lookup) \<Rightarrow> keyinfo list \<Rightarrow> (reason + outcome list) lookup" where
  "map_findWord x lookup infos d =
     (case blocks_for d infos of
        Inl e \<Rightarrow> Some (Inl e, d)
      | Inr bks \<Rightarrow> map_option (map_prod Inr id) (settle_all (findWord_then x lookup) bks d))"

section \<open>Scan mode: candidates from one key block\<close>

text \<open>
  \<^verbatim>\<open>
  function loadKeys(kdx) {
    if (_last_keys && _last_keys.pilot === kdx.first_word) {
      return resolve(_last_keys.list);
    } else {
      return _slice(kdx.offset, kdx.comp_size).then(function(input) {
        var scanner = Scanner(input).readBlock(kdx.comp_size, kdx.decomp_size),
            list = Array(kdx.num_entries);
        for (var i = 0; i < kdx.num_entries; i++) {
          var offset = scanner.readNum();
          list[i] = new Object(scanner.readText());
          list[i].offset = offset;
          if (i > 1) {
            list[i-1].size = offset - list[i-1].offset;
          }
        }
        _last_keys = {list: list, pilot: kdx.first_word};
        return list;
      });
    }
  }
  \<close>
\<close>

fun read_keys :: "ext \<Rightarrow> attrs \<Rightarrow> nat \<Rightarrow> nat \<Rightarrow> keyobj list \<Rightarrow> scanner \<Rightarrow> reason + keyobj list" where
  "read_keys x a 0 i list scanner = Inr list"
| "read_keys x a (Suc todo) i list scanner =
     (case readNum a scanner of
        (Inl e, _) \<Rightarrow> Inl e
      | (Inr off, scanner) \<Rightarrow>
          (case readText x a scanner of
             (Inl e, _) \<Rightarrow> Inl e
           | (Inr t, scanner) \<Rightarrow>
               (let list = list @ [\<lparr>key_text = t, key_offset = off, key_size = None\<rparr>];
                    list = (if i > 1
                            then list[i - 1 := (list ! (i - 1))
                                   \<lparr>key_size := Some (off - key_offset (list ! (i - 1)))\<rparr>]
                            else list)
                in read_keys x a todo (i + 1) list scanner)))"

definition loadKeys :: "ext \<Rightarrow> kdx \<Rightarrow> mdict \<Rightarrow> (reason + keyobj list) \<times> mdict" where
  "loadKeys x k d =
     (if (case last_keys d of None \<Rightarrow> False | Some (list, pilot) \<Rightarrow> pilot = kdx_first_word k)
      then (Inr (fst (the (last_keys d))), d)
      else
        (let input = sliceThen (file_of d) (kdx_offset k) (kdx_comp_size k)
         in case readBlock x (attrs_of d) (kdx_comp_size k) (Some (kdx_decomp_size k)) None
                   (Scanner input) of
              (Inl e, _) \<Rightarrow> (Inl e, d)
            | (Inr scanner, _) \<Rightarrow>
                (case read_keys x (attrs_of d) (nat (kdx_num_entries k)) 0 [] scanner of
                   Inl e \<Rightarrow> (Inl e, d)
                 | Inr list \<Rightarrow> (Inr list, d\<lparr>last_keys := Some (list, kdx_first_word k)\<rparr>))))"

text \<open>
  \<^verbatim>\<open>
  function reduce(arr, phrase) {
    var len = arr.length;
    if (len > 1) {
      len = len >> 1;
      if (phrase < _adaptKey(arr[len].first_word)) {
        // look back
        while (len > 1) {
          if (arr[len - 1].last_word !== arr[len].first_word) {
            break;
          }
          len--;
        }
        return reduce(arr.slice(0, len), phrase);
      } else {
        return reduce(arr.slice(len), phrase);
      }
    } else {
      return arr[0];
    }
  }
  \<close>
\<close>

function look_back :: "kdx list \<Rightarrow> nat \<Rightarrow> nat" where
  "look_back ks len =
     (if len > 1
      then (if kdx_last_word (ks ! (len - 1)) \<noteq> kdx_first_word (ks ! len) then len
            else look_back ks (len - 1))
      else len)"
  by pat_completeness auto
termination
  by (relation "measure (\<lambda>(ks, len). len)") auto

declare look_back.simps [simp del]

lemma look_back_le: "look_back ks len \<le> len"
proof (induction ks len rule: look_back.induct)
  case (1 ks len)
  show ?case
  proof (cases "len > 1 \<and> kdx_last_word (ks ! (len - 1)) = kdx_first_word (ks ! len)")
    case True
    then have "look_back ks (len - 1) \<le> len - 1"
      using "1.IH" by simp
    then show ?thesis
      using True by (subst look_back.simps) simp
  next
    case False
    then show ?thesis
      by (subst look_back.simps) auto
  qed
qed

function reduce :: "attrs \<Rightarrow> kdx list \<Rightarrow> string \<Rightarrow> kdx option" where
  "reduce a ks phrase =
     (let len = length ks
      in if len > 1
         then (let len = len div 2
               in if phrase < adaptKey a (kdx_first_word (ks ! len))
                  then reduce a (take (look_back ks len) ks) phrase
                  else reduce a (drop len ks) phrase)
         else nth_opt ks 0)"
  by pat_completeness auto
termination
proof (relation "measure (\<lambda>(a, ks, phrase). length ks)", goal_cases)
  case 1
  show ?case by simp
next
  case (2 a ks phrase len len')
  have "look_back ks (length ks div 2) \<le> length ks div 2"
    by (rule look_back_le)
  with 2 show ?case by simp
next
  case (3 a ks phrase len len')
  then show ?case by simp
qed

declare reduce.simps [simp del]

text \<open>
  \<^verbatim>\<open>
  function shrink(arr, phrase) {
    var len = arr.length, sub;
    if (len > 1) {
      len = len >> 1;
      var key = _adaptKey(arr[len]);
      if (phrase < key) {
        // Special Case: key ending with "-"
        if (key[key.length - 1] === '-' && arr[len + 1] === phrase) {
          return arr.pos + len + 1;
        }
        sub = arr.slice(0, len);
        sub.pos = arr.pos;
      } else {
        // Special Case: key ending with whitespace
        key = arr[len];
        if (key[key.length - 1] === ' ' && arr[len - 1] === phrase) {
          return arr.pos + len - 1;
        }
        sub = arr.slice(len);
        sub.pos = (arr.pos || 0) + len;
      }
      return shrink(sub, phrase);
    } else {
      return (arr.pos || 0) + (phrase === _adaptKey(arr[0]) ? 0 : 1);
    }
  }
  \<close>
  The elements of the list are \<open>String\<close> objects (\<open>new Object(scanner.readText())\<close>) and
  the phrase is a primitive string: \<open>===\<close> between them is false, as it is between
  \<open>undefined\<close> and the phrase. \<open>arr.pos\<close> is \<open>undefined\<close> until a right half is taken.
  \<open>_adaptKey(undefined)\<close> throws a \<open>TypeError\<close> unless \<open>_adaptKey\<close> is the identity; then its
  result is its argument, a \<open>String\<close> object or \<open>undefined\<close>, which is not \<open>===\<close> to the
  phrase either. \<open>adaptKey_opt\<close> is the result of \<open>_adaptKey\<close> where only \<open>===\<close> and \<open>!==\<close>
  look at it: the string when it is a primitive string, else \<open>None\<close>.
\<close>

definition object_is_primitive :: "keyobj option \<Rightarrow> string \<Rightarrow> bool" where
  "object_is_primitive obj phrase = False"

definition ends_with :: "string \<Rightarrow> char \<Rightarrow> bool" where
  "ends_with key c = (key \<noteq> [] \<and> last key = c)"

definition pos_or_0 :: "int option \<Rightarrow> int" where
  "pos_or_0 pos = (case pos of None \<Rightarrow> 0 | Some p \<Rightarrow> p)"

definition adaptKey_opt :: "attrs \<Rightarrow> string option \<Rightarrow> reason + string option" where
  "adaptKey_opt a key =
     (if isTrue (KeyCaseSensitive a) \<and> \<not> isTrue (StripKey a) then Inr None
      else (case key of Some k \<Rightarrow> Inr (Some (adaptKey a k)) | None \<Rightarrow> Inl TypeError))"

function shrink :: "attrs \<Rightarrow> keyobj list \<Rightarrow> int option \<Rightarrow> string \<Rightarrow> reason + int" where
  "shrink a ks pos phrase =
     (let len = length ks
      in if len > 1
         then (let len = len div 2; key = adaptKey a (key_text (ks ! len))
               in if phrase < key
                  then (if ends_with key CHR ''-'' \<and> object_is_primitive (nth_opt ks (int len + 1)) phrase
                        then (case pos of None \<Rightarrow> Inl NaNCursor | Some p \<Rightarrow> Inr (p + int len + 1))
                        else shrink a (take len ks) pos phrase)
                  else (if ends_with (key_text (ks ! len)) CHR '' '' \<and>
                           object_is_primitive (nth_opt ks (int len - 1)) phrase
                        then (case pos of None \<Rightarrow> Inl NaNCursor | Some p \<Rightarrow> Inr (p + int len - 1))
                        else shrink a (drop len ks) (Some (pos_or_0 pos + int len)) phrase))
         else (case adaptKey_opt a (map_option key_text (nth_opt ks 0)) of
                 Inl e \<Rightarrow> Inl e
               | Inr key \<Rightarrow> Inr (pos_or_0 pos + (if Some phrase = key then 0 else 1))))"
  by pat_completeness auto
termination
  by (relation "measure (\<lambda>(a, ks, pos, phrase). length ks)") auto

declare shrink.simps [simp del]

text \<open>
  \<^verbatim>\<open>
  var MAX_CANDIDATES = 64, _last_keys;
  function findCandidates(phrase) {
      phrase = _adaptKey(phrase);
      var kdx = reduce(KEY_INDEX, phrase);
      return loadKeys(kdx).then(function(list) {
        var idx = shrink(list, phrase);
        while (true && idx > 0) {
          if (_adaptKey(list[--idx]) !== phrase) {
            idx++;
            break;
          }
        }
        var candidates = list.slice(idx, idx + MAX_CANDIDATES);
        var shortage = MAX_CANDIDATES - candidates.length;
        if (shortage > 0 && (kdx = KEY_INDEX[kdx.index + 1]) !== UNDEFINED) {
          return loadKeys(kdx).then(function(nextList) {
            Array.prototype.push.apply(candidates, nextList.slice(0, shortage));
            return candidates;
          });
        }
        return candidates;
      });
  };
  \<close>
  \<open>loadKeys(undefined)\<close> throws a \<open>TypeError\<close> when it reads a property of \<open>kdx\<close>.
\<close>

definition MAX_CANDIDATES :: int where
  "MAX_CANDIDATES = 64"

function walk_back :: "attrs \<Rightarrow> keyobj list \<Rightarrow> string \<Rightarrow> int \<Rightarrow> reason + int" where
  "walk_back a list phrase idx =
     (if idx > 0
      then (case adaptKey_opt a (map_option key_text (nth_opt list (idx - 1))) of
              Inl e \<Rightarrow> Inl e
            | Inr key \<Rightarrow> if key \<noteq> Some phrase then Inr idx else walk_back a list phrase (idx - 1))
      else Inr idx)"
  by pat_completeness auto
termination
  by (relation "measure (\<lambda>(a, list, phrase, idx). nat idx)") auto

declare walk_back.simps [simp del]

datatype 'a promised = Settled 'a | Failed reason | Threw reason

definition findCandidates :: "ext \<Rightarrow> string \<Rightarrow> mdict \<Rightarrow> (keyobj list) promised \<times> mdict" where
  "findCandidates x phrase d =
     (let phrase = adaptKey (attrs_of d) phrase
      in case reduce (attrs_of d) (KEY_INDEX d) phrase of
           None \<Rightarrow> (Threw TypeError, d)
         | Some k \<Rightarrow>
             (case loadKeys x k d of
                (Inl e, d) \<Rightarrow> (Failed e, d)
              | (Inr list, d) \<Rightarrow>
                  (case shrink (attrs_of d) list None phrase of
                     Inl e \<Rightarrow> (Failed e, d)
                   | Inr idx \<Rightarrow>
                       (case walk_back (attrs_of d) list phrase idx of
                          Inl e \<Rightarrow> (Failed e, d)
                        | Inr idx \<Rightarrow>
                            (let candidates = js_slice list idx (idx + MAX_CANDIDATES);
                                 shortage = MAX_CANDIDATES - int (length candidates)
                             in if shortage > 0
                                then (case nth_opt (KEY_INDEX d) (kdx_index k + 1) of
                                        None \<Rightarrow> (Settled candidates, d)
                                      | Some k' \<Rightarrow>
                                          (case loadKeys x k' d of
                                             (Inl e, d) \<Rightarrow> (Failed e, d)
                                           | (Inr nextList, d) \<Rightarrow>
                                               (Settled (candidates @ js_slice nextList 0 shortage), d)))
                                else (Settled candidates, d))))))"

section \<open>The lookup functions\<close>

text \<open>
  \<^verbatim>\<open>
  mdx: function(phrase, offset) {
    var word = phrase.trim().toLowerCase();
    if (KEY_TABLE.isReady()) {
      // express mode
      var infos = KEY_TABLE.find(word);
      if (infos) {
        if (offset !== UNDEFINED) {
          infos = infos.filter(function(v) { return v.offset === offset;});
        }
        return harvest(infos.map(findWord));
      } else {
        return reject('*WORD NOT FOUND* ' + phrase);
      }
    } else {
      // scan mode
      return findCandidates(word).then(function(candidates) {
        var f = offset !== UNDEFINED
                  ? function(v) { return v.offset === offset; }
                  : function(v) { return v.toLowerCase() === word; }
        return harvest(candidates.filter(f).map(findWord));
      });
    }
  },
  \<close>
  \<open>mdx_body\<close> is the function with the \<open>LOOKUP.mdx\<close> that \<open>findWord\<close> hands to \<open>followLink\<close>
  as a parameter; \<open>LOOKUP_mdx\<close> ties the knot, counting in its first argument how many
  lookups deep the links may be followed. \<open>LOOKUP_mdx x n\<close> is \<open>None\<close> when the promise has
  not settled within that depth.
\<close>

definition keyinfo_of :: "keyobj \<Rightarrow> keyinfo" where
  "keyinfo_of k = \<lparr>ki_offset = Some (key_offset k), ki_size = key_size k\<rparr>"

definition express_infos :: "ext \<Rightarrow> mdict \<Rightarrow> string \<Rightarrow> int option \<Rightarrow> keyinfo list option" where
  "express_infos x d word off =
     (case kt_find x (KEY_TABLE d) word of
        None \<Rightarrow> None
      | Some infos \<Rightarrow>
          Some (case off of None \<Rightarrow> infos | Some off \<Rightarrow> filter (\<lambda>v. ki_offset v = Some off) infos))"

definition scan_infos :: "keyobj list \<Rightarrow> string \<Rightarrow> int option \<Rightarrow> keyinfo list" where
  "scan_infos candidates word off =
     map keyinfo_of
       (filter (case off of None \<Rightarrow> (\<lambda>v. toLowerCase (key_text v) = word)
                          | Some off \<Rightarrow> (\<lambda>v. key_offset v = off)) candidates)"

definition mdx_body ::
  "ext \<Rightarrow> (string \<Rightarrow> outcome lookup) \<Rightarrow> string \<Rightarrow> int option \<Rightarrow> outcome lookup" where
  "mdx_body x lookup phrase off d =
     (let word = toLowerCase (trim phrase)
      in if isReady (KEY_TABLE d)
         then (case express_infos x d word off of
                 Some infos \<Rightarrow>
                   (case map_findWord x lookup infos d of
                      None \<Rightarrow> None
                    | Some (Inl e, d) \<Rightarrow> Some (Thrown e, d)
                    | Some (Inr outcomes, d) \<Rightarrow> Some (harvest outcomes, d))
               | None \<Rightarrow> Some (Rejected (Message (''*WORD NOT FOUND* '' @ phrase)), d))
         else (case findCandidates x word d of
                 (Threw e, d) \<Rightarrow> Some (Thrown e, d)
               | (Failed e, d) \<Rightarrow> Some (Rejected e, d)
               | (Settled candidates, d) \<Rightarrow>
                   (case map_findWord x lookup (scan_infos candidates word off) d of
                      None \<Rightarrow> None
                    | Some (Inl e, d) \<Rightarrow> Some (Rejected e, d)
                    | Some (Inr outcomes, d) \<Rightarrow> Some (harvest outcomes, d))))"

primrec LOOKUP_mdx :: "ext \<Rightarrow> nat \<Rightarrow> string \<Rightarrow> int option \<Rightarrow> outcome lookup" where
  "LOOKUP_mdx x 0 phrase off d = None"
| "LOOKUP_mdx x (Suc n) phrase off d = mdx_body x (\<lambda>p. LOOKUP_mdx x n p None) phrase off d"

text \<open>
  \<^verbatim>\<open>
  mdd: function(phrase) {
    var word = phrase.trim().toLowerCase();
    word = '\\' + word.replace(/(^[/\\])|([/]$)/, '');
    if (KEY_TABLE.isReady()) {
      // express mode
      var keyinfo = KEY_TABLE.find(word)[0];
      if (keyinfo) {
        return findResource(keyinfo);
      } else {
        return reject("*RESOURCE NOT FOUND* " + phrase);
      }
    } else {
      // scan mode
      return findCandidates(word).then(function(candidates) {
        return candidates.filter(function(one) {
          return one.toLowerCase() === word;
        });
      }).then(function(candidates) {
        return findResource(candidates[0]);
      });
    }
  }
  \<close>
  The regular expression has no \<open>g\<close> flag: it removes one match, the leading \<open>/\<close> or \<open>\\<close>
  when there is one, else the trailing \<open>/\<close> when there is one. The older
  \<open>src/mdict-core.js\<close> replaces \<open>/^[/\\]/\<close>, the leading separator only.
\<close>

definition strip_separator :: "string \<Rightarrow> string" where
  "strip_separator word =
     (if word \<noteq> [] \<and> (hd word = CHR ''/'' \<or> hd word = CHR 0x5C) then tl word
      else if word \<noteq> [] \<and> last word = CHR ''/'' then butlast word
      else word)"

definition mdd_word :: "string \<Rightarrow> string" where
  "mdd_word phrase = CHR 0x5C # strip_separator (toLowerCase (trim phrase))"

definition strip_separator_core :: "string \<Rightarrow> string" where
  "strip_separator_core word =
     (if word \<noteq> [] \<and> (hd word = CHR ''/'' \<or> hd word = CHR 0x5C) then tl word else word)"

definition mdd_word_core :: "string \<Rightarrow> string" where
  "mdd_word_core phrase = CHR 0x5C # strip_separator_core (toLowerCase (trim phrase))"

definition findResource :: "ext \<Rightarrow> mdict \<Rightarrow> keyinfo option \<Rightarrow> outcome" where
  "findResource x d keyinfo =
     (case keyinfo of
        None \<Rightarrow> Thrown TypeError
      | Some keyinfo \<Rightarrow>
          (case findWord_block d keyinfo of
             Inl e \<Rightarrow> Thrown e
           | Inr blk \<Rightarrow> findResource_then x d blk keyinfo))"

definition LOOKUP_mdd :: "ext \<Rightarrow> string \<Rightarrow> mdict \<Rightarrow> outcome \<times> mdict" where
  "LOOKUP_mdd x phrase d =
     (let word = mdd_word phrase
      in if isReady (KEY_TABLE d)
         then (case kt_find x (KEY_TABLE d) word of
                 None \<Rightarrow> (Thrown TypeError, d)
               | Some infos \<Rightarrow>
                   (case infos of
                      keyinfo # _ \<Rightarrow> (findResource x d (Some keyinfo), d)
                    | [] \<Rightarrow> (Rejected (Message (''*RESOURCE NOT FOUND* '' @ phrase)), d)))
         else (case findCandidates x word d of
                 (Threw e, d) \<Rightarrow> (Thrown e, d)
               | (Failed e, d) \<Rightarrow> (Rejected e, d)
               | (Settled candidates, d) \<Rightarrow>
                   (let candidates = filter (\<lambda>one. toLowerCase (key_text one) = word) candidates
                    in (unthrown (findResource x d (map_option keyinfo_of (nth_opt candidates 0))), d))))"

section \<open>An environment for evaluation\<close>

text \<open>
  Evaluating the embedding on a concrete input needs an instance of its parameters. In
  \<open>plain_ext h\<close> the hash is \<open>h\<close>, both codecs reject every payload, the digest is the
  key cut or padded to 16 bytes, and every decoder maps a byte to the character with its
  code, as the decoders of UTF-8 and of the single-byte encodings do for bytes below
  \<open>0x80\<close>.
\<close>

definition ascii_text :: "byte list \<Rightarrow> string" where
  "ascii_text bs = map (\<lambda>b. char_of (unat b)) bs"

definition ascii_bytes :: "string \<Rightarrow> byte list" where
  "ascii_bytes s = map (\<lambda>c. of_nat (of_char c)) s"

definition plain_ext :: "(string \<Rightarrow> 32 word) \<Rightarrow> ext" where
  "plain_ext h =
     \<lparr>hashString = h, ripemd128 = (\<lambda>k. take 16 (k @ replicate 16 0)),
      inflate = (\<lambda>b. None), lzo_decompress = (\<lambda>b n. None), decode = (\<lambda>l. ascii_text)\<rparr>"

text \<open>Attributes of a version 2 dictionary in UTF-8 and of one in UTF-16.\<close>

definition utf8_v2 :: attrs where
  "utf8_v2 = \<lparr>Encoding = Some ''UTF-8'', GeneratedByEngineVersion = Some 2, Encrypted = 0,
               KeyCaseSensitive = None, StripKey = None\<rparr>"

definition utf16_v2 :: attrs where
  "utf16_v2 = \<lparr>Encoding = Some ''UTF-16'', GeneratedByEngineVersion = Some 2, Encrypted = 0,
               KeyCaseSensitive = None, StripKey = None\<rparr>"

section \<open>Notions used in the properties\<close>

text \<open>
  A text that \<open>_searchTextLen\<close> measures right when its terminator follows it: without a
  NUL byte in a single-byte encoding; in UTF-16, where the scan reads two bytes at every
  byte offset, ending in a 0 byte and without two neighbouring 0 bytes.
\<close>

definition terminated_text :: "attrs \<Rightarrow> byte list \<Rightarrow> bool" where
  "terminated_text a bs =
     (if utf16 a
      then bs \<noteq> [] \<and> last bs = 0 \<and> (\<forall>i. Suc i < length bs \<longrightarrow> bs ! i \<noteq> 0 \<or> bs ! Suc i \<noteq> 0)
      else 0 \<notin> set bs)"

text \<open>
  When \<open>readBlock\<close> reaches its decryptor: the first tag byte is not 0 and the block of
  \<open>len\<close> bytes lies within the buffer. \<open>payload\<close> is the block without its preamble.
\<close>

definition decrypts_in_place :: "scanner \<Rightarrow> int \<Rightarrow> bool" where
  "decrypts_in_place s len =
     ((case getUint 1 (buf s) (offset s) of Inl e \<Rightarrow> False | Inr comp_type \<Rightarrow> comp_type \<noteq> 0) \<and>
      8 \<le> len \<and> offset s + len \<le> int (length (buf s)))"

definition payload :: "scanner \<Rightarrow> int \<Rightarrow> byte list" where
  "payload s len = take (nat (len - 8)) (drop (nat (offset s + 8)) (buf s))"

definition backslash :: char where
  "backslash = CHR 0x5C"

text \<open>
  The records that \<open>LOOKUP.mdx\<close> selects for a phrase, before it reads any of them: in
  express mode those that \<open>find\<close> yields, in scan mode the candidates that pass the
  filter, with the dictionary as the scan leaves it. \<open>None\<close> when there is no selection
  (the word is not in the table, or the scan fails).
\<close>

definition selection :: "ext \<Rightarrow> mdict \<Rightarrow> string \<Rightarrow> int option \<Rightarrow> (keyinfo list \<times> mdict) option" where
  "selection x d phrase off =
     (let word = toLowerCase (trim phrase)
      in if isReady (KEY_TABLE d)
         then map_option (\<lambda>infos. (infos, d)) (express_infos x d word off)
         else (case findCandidates x word d of
                 (Settled candidates, d') \<Rightarrow> Some (scan_infos candidates word off, d')
               | _ \<Rightarrow> None))"

text \<open>
  One link: the keyword that the lookup of a phrase goes on with, when the lookup selects
  one record and the text of that record begins with \<open>@@@LINK=\<close>, and the dictionary as the
  selection leaves it. \<open>link_chain x m\<close> follows \<open>m\<close> links, one after the other.
\<close>

definition link_step :: "ext \<Rightarrow> mdict \<Rightarrow> string \<Rightarrow> (string \<times> mdict) option" where
  "link_step x d phrase =
     (case selection x d phrase None of
        Some ([k], d') \<Rightarrow>
          (case findWord_block d' k of
             Inl e \<Rightarrow> None
           | Inr blk \<Rightarrow>
               (case read_definition x (attrs_of d')
                       (sliceThen (file_of d') (comp_offset blk) (comp_size blk)) blk k of
                  Inl e \<Rightarrow> None
                | Inr defn \<Rightarrow>
                    if substring defn 0 8 = ''@@@LINK='' then Some (substring_from defn 8, d')
                    else None))
      | _ \<Rightarrow> None)"

fun link_chain :: "ext \<Rightarrow> nat \<Rightarrow> string \<Rightarrow> mdict \<Rightarrow> (string \<times> mdict) option" where
  "link_chain x 0 phrase d = Some (phrase, d)"
| "link_chain x (Suc m) phrase d =
     (case link_step x d phrase of
        None \<Rightarrow> None
      | Some (q, d') \<Rightarrow> link_chain x m q d')"

text \<open>
  The table that \<open>willLoadKeyTable\<close> builds from a keyword section with the entries
  \<open>list\<close>: \<open>alloc(num_entries)\<close>, then \<open>read_key_block\<close> puts every entry, in the order of
  the section, then \<open>sort()\<close>.
  \<^verbatim>\<open>
  function read_key_block(scanner, kdx) {
    var scanner = scanner.readBlock(kdx.comp_size, kdx.decomp_size);
    for (var i = 0; i < kdx.num_entries; i++) {
      KEY_TABLE.put(scanner.readNum(), scanner.readText());
    }
  }
  function willLoadKeyTable() {
    var scanner = Scanner(input);
    scanner.forward(keyword_summary.key_index_comp_len);
    KEY_TABLE.alloc(keyword_summary.num_entries);
    for (var i = 0, size = keyword_index.length; i < size; i++) {
      read_key_block(scanner, keyword_index[i]);
    }
    KEY_TABLE.sort();
  };
  \<close>
\<close>

fun put_keys :: "ext \<Rightarrow> keyobj list \<Rightarrow> key_table \<Rightarrow> key_table" where
  "put_keys x [] t = t"
| "put_keys x (k # ks) t = put_keys x ks (kt_put x (key_offset k) (key_text k) t)"

definition loaded_table :: "ext \<Rightarrow> keyobj list \<Rightarrow> key_table" where
  "loaded_table x list = kt_sort (put_keys x list (kt_alloc (length list) createKeyTable))"

text \<open>The entries of the table before \<open>sort()\<close>: the hash of each key with its ordinal.\<close>

definition hash_pairs :: "ext \<Rightarrow> keyobj list \<Rightarrow> (32 word \<times> 32 word) list" where
  "hash_pairs x list = map (\<lambda>j. (hash x (key_text (list ! j)), word_of_nat j)) [0..<length list]"

text \<open>
  The text of the record at an offset, as \<open>findWord\<close> reads it for a keyinfo with that
  offset (the size of the keyinfo is not used), and the definitions a lookup has resolved
  to: the elements of the array its promise is resolved with, none when the promise is
  rejected or never settles.
\<close>

definition record_text :: "ext \<Rightarrow> mdict \<Rightarrow> int \<Rightarrow> reason + string" where
  "record_text x d off =
     (case findWord_block d \<lparr>ki_offset = Some off, ki_size = None\<rparr> of
        Inl e \<Rightarrow> Inl e
      | Inr blk \<Rightarrow>
          read_definition x (attrs_of d) (sliceThen (file_of d) (comp_offset blk) (comp_size blk))
            blk \<lparr>ki_offset = Some off, ki_size = None\<rparr>)"

definition definitions_of :: "(outcome \<times> mdict) option \<Rightarrow> jsvalue list" where
  "definitions_of r = (case r of Some (Resolved (Items vs), d) \<Rightarrow> vs | _ \<Rightarrow> [])"

text \<open>
  \<open>cache_ok d kss\<close>: \<open>_last_keys\<close> is empty, or it holds the key list of one of the blocks,
  of those with the key lists \<open>kss\<close>, with the first word of that block.
\<close>

definition cache_ok :: "mdict \<Rightarrow> keyobj list list \<Rightarrow> bool" where
  "cache_ok d kss =
     (case last_keys d of
        None \<Rightarrow> True
      | Some (l, p) \<Rightarrow> (\<exists>i < length kss. l = kss ! i \<and> p = kdx_first_word (KEY_INDEX d ! i)))"

text \<open>
  \<open>key_blocks x d kss\<close>: the keyword section of the dictionary \<open>d\<close> has the blocks with the
  key lists \<open>kss\<close>. Every block has a key, the entry of the keyword index for a block has
  the block's number as its index and the block's first and last key as its first and last
  word, and \<open>loadKeys\<close> reads the block's list from the file.
\<close>

definition key_blocks :: "ext \<Rightarrow> mdict \<Rightarrow> keyobj list list \<Rightarrow> bool" where
  "key_blocks x d kss =
     (kss \<noteq> [] \<and> length (KEY_INDEX d) = length kss \<and> cache_ok d kss \<and>
      (\<forall>i < length kss.
         kss ! i \<noteq> [] \<and>
         kdx_index (KEY_INDEX d ! i) = int i \<and>
         kdx_first_word (KEY_INDEX d ! i) = key_text (hd (kss ! i)) \<and>
         kdx_last_word (KEY_INDEX d ! i) = key_text (last (kss ! i)) \<and>
         fst (loadKeys x (KEY_INDEX d ! i) (d\<lparr>last_keys := None\<rparr>)) = Inr (kss ! i)))"

section \<open>Example dictionaries\<close>

text \<open>
  A resource dictionary (version 2, single-byte keys) with one key block and one record
  block, both uncompressed. The key block (23 bytes) is its 8-byte preamble, the record
  offset 0 as an 8-byte number, and the key \<open>\a.png\<close> with its terminator; the record block
  (11 bytes) is its preamble and the record \<open>01 02 03\<close>. The key table is not loaded: as
  \<open>parse_mdict\<close> leaves it, lookups run in scan mode.
\<close>

definition resource_dict :: mdict where
  "resource_dict =
     \<lparr>attrs_of = utf8_v2,
      file_of = [0, 0, 0, 0, 0, 0, 0, 0,  0, 0, 0, 0, 0, 0, 0, 0,  0x5C, 0x61, 0x2E, 0x70, 0x6E, 0x67, 0,
                 0, 0, 0, 0, 0, 0, 0, 0,  1, 2, 3],
      KEY_INDEX = [\<lparr>kdx_num_entries = 1, kdx_first_word = backslash # ''a.png'',
                    kdx_last_word = backslash # ''a.png'', kdx_comp_size = 23,
                    kdx_decomp_size = 15, kdx_offset = 0, kdx_index = 0\<rparr>],
      KEY_TABLE = createKeyTable,
      RECORD_BLOCK_TABLE = fill_record_block_table 23 [(11, 3)],
      last_keys = None\<rparr>"

text \<open>
  \<open>resource_dict\<close> after a lookup has read its key block: \<open>_last_keys\<close> holds the key list.
\<close>

definition resource_dict_loaded :: mdict where
  "resource_dict_loaded =
     resource_dict\<lparr>last_keys := Some ([\<lparr>key_text = backslash # ''a.png'', key_offset = 0, key_size = None\<rparr>],
                                        backslash # ''a.png'')\<rparr>"

text \<open>
  A dictionary (version 2, UTF-8) whose one record links to its own keyword. The key
  block (18 bytes) is its 8-byte preamble, the record offset 0 as an 8-byte number, and the
  key \<open>a\<close> with its terminator; the record block (18 bytes) is its preamble and the record
  \<open>@@@LINK=a\<close> with its terminator. \<open>loop_dict_loaded\<close> is the dictionary after a lookup has
  read the key block.
\<close>

definition loop_dict :: mdict where
  "loop_dict =
     \<lparr>attrs_of = utf8_v2,
      file_of = [0, 0, 0, 0, 0, 0, 0, 0,  0, 0, 0, 0, 0, 0, 0, 0,  0x61, 0,
                 0, 0, 0, 0, 0, 0, 0, 0,  0x40, 0x40, 0x40, 0x4C, 0x49, 0x4E, 0x4B, 0x3D, 0x61, 0],
      KEY_INDEX = [\<lparr>kdx_num_entries = 1, kdx_first_word = ''a'', kdx_last_word = ''a'',
                    kdx_comp_size = 18, kdx_decomp_size = 10, kdx_offset = 0, kdx_index = 0\<rparr>],
      KEY_TABLE = createKeyTable,
      RECORD_BLOCK_TABLE = fill_record_block_table 18 [(18, 10)],
      last_keys = None\<rparr>"

definition loop_dict_loaded :: mdict where
  "loop_dict_loaded =
     loop_dict\<lparr>last_keys := Some ([\<lparr>key_text = ''a'', key_offset = 0, key_size = None\<rparr>], ''a'')\<rparr>"

text \<open>
  Two dictionaries (version 2, UTF-8) for the comparison of the two modes, with
  uncompressed blocks. \<open>cat_dict a\<close>, with the attributes \<open>a\<close>, has one key block with the
  key \<open>Cat\<close> and one record block with the record \<open>meow\<close>. \<open>pets_dict\<close> has two key
  blocks, the first with the key \<open>Cat\<close> and the second with the key \<open>dog\<close>, and one record
  block with the records \<open>meow\<close> (at offset 0) and \<open>woof\<close> (at offset 5). A key block (20
  bytes) is its 8-byte preamble, the record offset as an 8-byte number, and the key with
  its terminator. \<open>cat_kdx\<close> and \<open>dog_kdx\<close> are the entries of the keyword index for the two
  key blocks, and \<open>case_v2\<close> the attributes of a case sensitive dictionary.
\<close>

definition case_v2 :: attrs where
  "case_v2 = utf8_v2\<lparr>KeyCaseSensitive := Some ''Yes''\<rparr>"

definition cat_key :: keyobj where
  "cat_key = \<lparr>key_text = ''Cat'', key_offset = 0, key_size = None\<rparr>"

definition dog_key :: keyobj where
  "dog_key = \<lparr>key_text = ''dog'', key_offset = 5, key_size = None\<rparr>"

definition cat_kdx :: kdx where
  "cat_kdx = \<lparr>kdx_num_entries = 1, kdx_first_word = ''Cat'', kdx_last_word = ''Cat'',
               kdx_comp_size = 20, kdx_decomp_size = 12, kdx_offset = 0, kdx_index = 0\<rparr>"

definition dog_kdx :: kdx where
  "dog_kdx = \<lparr>kdx_num_entries = 1, kdx_first_word = ''dog'', kdx_last_word = ''dog'',
               kdx_comp_size = 20, kdx_decomp_size = 12, kdx_offset = 20, kdx_index = 1\<rparr>"

definition cat_dict :: "attrs \<Rightarrow> mdict" where
  "cat_dict a =
     \<lparr>attrs_of = a,
      file_of = [0, 0, 0, 0, 0, 0, 0, 0,  0, 0, 0, 0, 0, 0, 0, 0,  0x43, 0x61, 0x74, 0,
                 0, 0, 0, 0, 0, 0, 0, 0,  0x6D, 0x65, 0x6F, 0x77, 0],
      KEY_INDEX = [cat_kdx],
      KEY_TABLE = createKeyTable,
      RECORD_BLOCK_TABLE = fill_record_block_table 20 [(13, 5)],
      last_keys = None\<rparr>"

definition pets_dict :: mdict where
  "pets_dict =
     \<lparr>attrs_of = utf8_v2,
      file_of = [0, 0, 0, 0, 0, 0, 0, 0,  0, 0, 0, 0, 0, 0, 0, 0,  0x43, 0x61, 0x74, 0,
                 0, 0, 0, 0, 0, 0, 0, 0,  0, 0, 0, 0, 0, 0, 0, 5,  0x64, 0x6F, 0x67, 0,
                 0, 0, 0, 0, 0, 0, 0, 0,  0x6D, 0x65, 0x6F, 0x77, 0,  0x77, 0x6F, 0x6F, 0x66, 0],
      KEY_INDEX = [cat_kdx, dog_kdx],
      KEY_TABLE = createKeyTable,
      RECORD_BLOCK_TABLE = fill_record_block_table 40 [(18, 10)],
      last_keys = None\<rparr>"

section \<open>Properties of the decryption\<close>

lemma byte_masks: "(255 :: 32 word) = mask 8" "(255 :: int) = mask 8" "(256 :: int) = 2 ^ 8"
  by (simp_all add: mask_eq_exp_minus_1)

lemma uint_decrypt_byte:
  "uint (decrypt_byte key i prev b) =
     ((drop_bit 4 (uint b) OR push_bit 4 (uint b)) XOR uint prev XOR (int i AND 0xFF)
        XOR uint (key_at key i)) mod 256"
  unfolding decrypt_byte_def Let_def byte_masks
  apply (rule bit_eqI)
  apply (simp only: flip: take_bit_eq_mod)
  apply (auto simp add: bit_simps)
  done

declare decrypt_loop.simps [simp del]

lemma length_decrypt_loop: "length (decrypt_loop key i prev bf) = length bf"
proof (induction key i prev bf rule: decrypt_loop.induct)
  case (1 key i prev bf)
  then show ?case
    by (subst decrypt_loop.simps) simp
qed

text \<open>Positions before the loop index are final: the loop never writes them again.\<close>

lemma decrypt_loop_before: "j < i \<Longrightarrow> decrypt_loop key i prev bf ! j = bf ! j"
proof (induction key i prev bf rule: decrypt_loop.induct)
  case (1 key i prev bf)
  show ?case
  proof (cases "i < length bf")
    case True
    have "decrypt_loop key i prev bf ! j =
          decrypt_loop key (i + 1) (bf ! i) (bf[i := decrypt_byte key i prev (bf ! i)]) ! j"
      using True by (subst decrypt_loop.simps) simp
    also have "\<dots> = (bf[i := decrypt_byte key i prev (bf ! i)]) ! j"
      using "1.IH" [OF True] "1.prems" by simp
    also have "\<dots> = bf ! j"
      using "1.prems" by simp
    finally show ?thesis .
  next
    case False
    then show ?thesis
      by (subst decrypt_loop.simps) simp
  qed
qed

text \<open>
  The byte written at position \<open>j\<close> is computed from the bytes the buffer held before
  the loop reached \<open>j\<close>: its own and, through \<open>prev\<close>, its left neighbour's.
\<close>

lemma decrypt_loop_at:
  "i \<le> j \<Longrightarrow> j < length bf \<Longrightarrow>
   decrypt_loop key i prev bf ! j =
     decrypt_byte key j (if j = i then prev else bf ! (j - 1)) (bf ! j)"
proof (induction key i prev bf rule: decrypt_loop.induct)
  case (1 key i prev bf)
  let ?bf' = "bf[i := decrypt_byte key i prev (bf ! i)]"
  have lt: "i < length bf"
    using "1.prems" by simp
  have step: "decrypt_loop key i prev bf = decrypt_loop key (i + 1) (bf ! i) ?bf'"
    using lt by (subst decrypt_loop.simps) simp
  show ?case
  proof (cases "j = i")
    case True
    have "decrypt_loop key (i + 1) (bf ! i) ?bf' ! i = ?bf' ! i"
      by (rule decrypt_loop_before) simp
    then show ?thesis
      unfolding step True using lt by simp
  next
    case False
    then have le: "i + 1 \<le> j"
      using "1.prems" by simp
    have ih: "decrypt_loop key (i + 1) (bf ! i) ?bf' ! j =
          decrypt_byte key j (if j = i + 1 then bf ! i else ?bf' ! (j - 1)) (?bf' ! j)"
      using "1.IH" [OF lt le] "1.prems" by simp
    have same: "?bf' ! j = bf ! j"
      using False by simp
    have left: "(if j = i + 1 then bf ! i else ?bf' ! (j - 1)) = bf ! (j - 1)"
    proof (cases "j = i + 1")
      case True
      then show ?thesis by simp
    next
      case False
      then have "j - 1 \<noteq> i"
        using le by arith
      then show ?thesis
        using False by simp
    qed
    show ?thesis
      unfolding step ih same left using False by simp
  qed
qed

text \<open>
  C7. For every input byte array \<open>b\<close> and every key \<open>k\<close> whose digest has the 16 bytes
  of RIPEMD-128, the decryption writes at each position \<open>i\<close> the byte
  \<open>(((b[i] >> 4) | (b[i] << 4)) XOR prev XOR (i AND 0xFF) XOR ripemd128(k)[i mod 16]) mod 256\<close>,
  where \<open>prev\<close> is \<open>0x36\<close> at position 0 and the input byte \<open>b[i - 1]\<close> after it; the
  buffer keeps its length.
\<close>

theorem decrypt_closed_form:
  assumes "length (ripemd128 x k) = 16" and "i < length b"
  shows "length (decrypt x b k) = length b \<and>
         uint (decrypt x b k ! i) =
           ((drop_bit 4 (uint (b ! i)) OR push_bit 4 (uint (b ! i)))
              XOR (if i = 0 then 0x36 else uint (b ! (i - 1)))
              XOR (int i AND 0xFF)
              XOR uint (ripemd128 x k ! (i mod 16))) mod 256"
proof -
  have "decrypt x b k ! i =
        decrypt_byte (ripemd128 x k) i (if i = 0 then 0x36 else b ! (i - 1)) (b ! i)"
    unfolding decrypt_def using assms(2) by (intro decrypt_loop_at) simp_all
  moreover have "uint (key_at (ripemd128 x k) i) = uint (ripemd128 x k ! (i mod 16))"
    using assms(1) by (simp add: key_at_def uint_up_ucast is_up)
  ultimately show ?thesis
    by (simp add: uint_decrypt_byte decrypt_def length_decrypt_loop)
qed

theorem decrypt_closed_form_witness:
  "length (ripemd128 (plain_ext (\<lambda>s. 0)) [1, 2, 3, 4, 5, 6, 7, 8]) = 16 \<and>
   (1 :: nat) < length [0x12, 0x34, 0xFF :: byte] \<and>
   length (decrypt (plain_ext (\<lambda>s. 0)) [0x12, 0x34, 0xFF] [1, 2, 3, 4, 5, 6, 7, 8]) = 3 \<and>
   uint (decrypt (plain_ext (\<lambda>s. 0)) [0x12, 0x34, 0xFF] [1, 2, 3, 4, 5, 6, 7, 8] ! 1) = 0x52"
  using decrypt_closed_form [of "plain_ext (\<lambda>s. 0)" "[1, 2, 3, 4, 5, 6, 7, 8]" 1 "[0x12, 0x34, 0xFF]"]
  by (simp add: plain_ext_def)

section \<open>Properties of the record block table\<close>

lemma rb_put_simps:
  "rpos (rb_put c d t) = rpos t + 2"
  "length (arr (rb_put c d t)) = length (arr t)"
  by (simp_all add: rb_put_def)

lemma rb_put_nth:
  "rpos t + 1 < length (arr t) \<Longrightarrow>
   arr (rb_put c d t) ! j =
     (if j = rpos t then word_of_int c else if j = rpos t + 1 then word_of_int d else arr t ! j)"
  by (simp add: rb_put_def nth_list_update)

lemma length_put_blocks: "length (arr (put_blocks p0 p1 sizes t)) = length (arr t)"
  by (induction sizes arbitrary: p0 p1 t) (auto simp add: rb_put_simps)

lemma put_blocks_frame:
  "j < rpos t \<Longrightarrow> rpos t + 2 * (length sizes + 1) \<le> length (arr t) \<Longrightarrow>
   arr (put_blocks p0 p1 sizes t) ! j = arr t ! j"
proof (induction sizes arbitrary: p0 p1 t)
  case Nil
  then show ?case by (simp add: rb_put_nth)
next
  case (Cons s sizes)
  obtain c d where s: "s = (c, d)" by (cases s)
  have "arr (put_blocks (p0 + c) (p1 + d) sizes (rb_put p0 p1 t)) ! j = arr (rb_put p0 p1 t) ! j"
    using Cons.prems by (intro Cons.IH) (simp_all add: rb_put_simps)
  then show ?case
    using Cons.prems by (simp add: s rb_put_nth)
qed

lemma put_blocks_nth:
  "k \<le> length sizes \<Longrightarrow> rpos t + 2 * (length sizes + 1) \<le> length (arr t) \<Longrightarrow>
   arr (put_blocks p0 p1 sizes t) ! (rpos t + 2 * k) = word_of_int (p0 + comp_before sizes k) \<and>
   arr (put_blocks p0 p1 sizes t) ! (rpos t + 2 * k + 1) = word_of_int (p1 + decomp_before sizes k)"
proof (induction sizes arbitrary: p0 p1 t k)
  case Nil
  then show ?case
    by (simp add: rb_put_nth comp_before_def decomp_before_def)
next
  case (Cons s sizes)
  obtain c d where s: "s = (c, d)" by (cases s)
  let ?t = "rb_put p0 p1 t"
  show ?case
  proof (cases k)
    case 0
    have "arr (put_blocks (p0 + c) (p1 + d) sizes ?t) ! rpos t = arr ?t ! rpos t"
         "arr (put_blocks (p0 + c) (p1 + d) sizes ?t) ! (rpos t + 1) = arr ?t ! (rpos t + 1)"
      using Cons.prems by (simp_all add: put_blocks_frame rb_put_simps)
    then show ?thesis
      using Cons.prems 0 by (simp add: s rb_put_nth comp_before_def decomp_before_def)
  next
    case (Suc k')
    have "arr (put_blocks (p0 + c) (p1 + d) sizes ?t) ! (rpos ?t + 2 * k') =
            word_of_int (p0 + c + comp_before sizes k') \<and>
          arr (put_blocks (p0 + c) (p1 + d) sizes ?t) ! (rpos ?t + 2 * k' + 1) =
            word_of_int (p1 + d + decomp_before sizes k')"
      using Cons.prems Suc by (intro Cons.IH) (simp_all add: rb_put_simps)
    then show ?thesis
      using Suc by (simp add: s rb_put_simps comp_before_def decomp_before_def add.assoc)
  qed
qed

lemma before_mono:
  assumes "list_all (\<lambda>(c, d). 0 \<le> c \<and> 0 \<le> d) sizes" and "j \<le> k"
  shows "comp_before sizes j \<le> comp_before sizes k" and "decomp_before sizes j \<le> decomp_before sizes k"
proof -
  have split: "take k sizes = take j sizes @ take (k - j) (drop j sizes)"
    using assms(2) by (metis le_add_diff_inverse take_add)
  have nn: "list_all (\<lambda>(c, d). 0 \<le> c \<and> 0 \<le> d) (take (k - j) (drop j sizes))"
    using assms(1) unfolding list_all_iff
    by (meson in_set_dropD in_set_takeD)
  have "0 \<le> sum_list (map fst (take (k - j) (drop j sizes)))"
    using nn by (intro sum_list_nonneg) (auto simp add: list_all_iff)
  moreover have "0 \<le> sum_list (map snd (take (k - j) (drop j sizes)))"
    using nn by (intro sum_list_nonneg) (auto simp add: list_all_iff)
  ultimately show "comp_before sizes j \<le> comp_before sizes k"
    and "decomp_before sizes j \<le> decomp_before sizes k"
    unfolding comp_before_def decomp_before_def split by simp_all
qed

lemma before_Suc:
  "k < length sizes \<Longrightarrow> comp_before sizes (Suc k) = comp_before sizes k + fst (sizes ! k)"
  "k < length sizes \<Longrightarrow> decomp_before sizes (Suc k) = decomp_before sizes k + snd (sizes ! k)"
  by (simp_all add: comp_before_def decomp_before_def take_Suc_conv_app_nth)

lemma before_nonneg:
  assumes "list_all (\<lambda>(c, d). 0 \<le> c \<and> 0 \<le> d) sizes"
  shows "0 \<le> comp_before sizes k" and "0 \<le> decomp_before sizes k"
  using before_mono [OF assms, of 0 k] by (simp_all add: comp_before_def decomp_before_def)

lemma uint_word_of_int_32: "0 \<le> v \<Longrightarrow> v < 2 ^ 32 \<Longrightarrow> uint (word_of_int v :: 32 word) = v"
  by (simp add: uint_word_of_int_eq take_bit_int_eq_self)

lemma length_fill: "length (arr (fill_record_block_table block_pos sizes)) = 2 * (length sizes + 1)"
  by (simp add: fill_record_block_table_def length_put_blocks rb_alloc_def createRecordBlockTable_def)

lemma fill_reads:
  assumes "addressable block_pos sizes" and "k \<le> length sizes"
  shows "u32_at (arr (fill_record_block_table block_pos sizes)) (2 * int k) =
           Some (block_pos + comp_before sizes k)"
    and "u32_at (arr (fill_record_block_table block_pos sizes)) (2 * int k + 1) =
           Some (decomp_before sizes k)"
proof -
  let ?t = "rb_alloc (length sizes + 1) createRecordBlockTable"
  have nn: "list_all (\<lambda>(c, d). 0 \<le> c \<and> 0 \<le> d) sizes"
    using assms(1) by (simp add: addressable_def)
  have t: "rpos ?t = 0" "length (arr ?t) = 2 * (length sizes + 1)"
    by (simp_all add: rb_alloc_def createRecordBlockTable_def)
  have nth: "arr (put_blocks block_pos 0 sizes ?t) ! (2 * k) = word_of_int (block_pos + comp_before sizes k)"
            "arr (put_blocks block_pos 0 sizes ?t) ! (2 * k + 1) = word_of_int (decomp_before sizes k)"
    using put_blocks_nth [of k sizes ?t block_pos 0] assms(2) t by simp_all
  have c: "0 \<le> block_pos + comp_before sizes k" "block_pos + comp_before sizes k < 2 ^ 32"
    using assms before_mono(1) [OF nn assms(2)] before_nonneg(1) [OF nn, of k]
    by (simp_all add: addressable_def)
  have d: "0 \<le> decomp_before sizes k" "decomp_before sizes k < 2 ^ 32"
    using assms before_mono(2) [OF nn assms(2)] before_nonneg(2) [OF nn, of k]
    by (simp_all add: addressable_def)
  have len: "length (arr (put_blocks block_pos 0 sizes ?t)) = 2 * (length sizes + 1)"
    using t by (simp add: length_put_blocks)
  have "uint (arr (put_blocks block_pos 0 sizes ?t) ! (2 * k)) = block_pos + comp_before sizes k"
    unfolding nth(1) using c by (rule uint_word_of_int_32)
  moreover have "nat (2 * int k) = 2 * k" and "2 * int k < int (2 * (length sizes + 1))"
    using assms(2) by simp_all
  ultimately show "u32_at (arr (fill_record_block_table block_pos sizes)) (2 * int k) =
           Some (block_pos + comp_before sizes k)"
    unfolding u32_at_def fill_record_block_table_def len by simp
  have "uint (arr (put_blocks block_pos 0 sizes ?t) ! (2 * k + 1)) = decomp_before sizes k"
    unfolding nth(2) using d by (rule uint_word_of_int_32)
  moreover have "nat (2 * int k + 1) = 2 * k + 1" and "2 * int k + 1 < int (2 * (length sizes + 1))"
    using assms(2) by simp_all
  ultimately show "u32_at (arr (fill_record_block_table block_pos sizes)) (2 * int k + 1) =
           Some (decomp_before sizes k)"
    unfolding u32_at_def fill_record_block_table_def len by simp
qed

text \<open>
  The loop brackets the offset: it keeps \<open>D lo \<le> keyAt\<close> and \<open>keyAt < D hi\<close> (at the
  sentinel, \<open>keyAt \<le> D hi\<close>) and ends at two neighbours.
\<close>

lemma rb_find_loop_bracket:
  assumes reads: "\<And>k. 0 \<le> k \<Longrightarrow> k \<le> n \<Longrightarrow> u32_at ar (2 * k + 1) = Some (D k)"
    and "0 \<le> lo" and "lo < hi" and "hi \<le> n" and "D lo \<le> keyAt"
    and "keyAt < D hi \<or> (hi = n \<and> keyAt \<le> D n)"
  shows "\<exists>k. lo \<le> k \<and> k < hi \<and> rb_find_loop ar keyAt lo hi = Some (block_at ar k) \<and>
             D k \<le> keyAt \<and> (keyAt < D (k + 1) \<or> (k + 1 = n \<and> keyAt \<le> D n))"
  using assms(2-)
proof (induction "nat (hi - lo)" arbitrary: lo hi rule: less_induct)
  case less
  let ?i = "(lo + hi) div 2"
  show ?case
  proof (cases "hi - lo \<le> 1")
    case True
    then have hi: "hi = lo + 1"
      using less.prems by simp
    have "rb_find_loop ar keyAt lo hi = Some (block_at ar lo)"
      by (subst rb_find_loop.simps) (simp add: hi Let_def)
    then show ?thesis
      using less.prems hi by (intro exI [of _ lo]) auto
  next
    case False
    then have mid: "lo < ?i" "?i < hi"
      by simp_all
    have val: "u32_at ar (2 * ?i + 1) = Some (D ?i)"
      using mid less.prems by (intro reads) simp_all
    show ?thesis
    proof (cases "keyAt < D ?i")
      case True
      have step: "rb_find_loop ar keyAt lo hi = rb_find_loop ar keyAt lo ?i"
        using False True val by (subst rb_find_loop.simps) (simp add: Let_def)
      have "\<exists>k. lo \<le> k \<and> k < ?i \<and> rb_find_loop ar keyAt lo ?i = Some (block_at ar k) \<and>
             D k \<le> keyAt \<and> (keyAt < D (k + 1) \<or> (k + 1 = n \<and> keyAt \<le> D n))"
        using mid less.prems True by (intro less.hyps) simp_all
      then obtain k where k: "lo \<le> k" "k < ?i" "rb_find_loop ar keyAt lo ?i = Some (block_at ar k)"
          "D k \<le> keyAt" "keyAt < D (k + 1) \<or> (k + 1 = n \<and> keyAt \<le> D n)"
        by blast
      show ?thesis
        unfolding step using mid k by (intro exI [of _ k]) simp
    next
      case ge: False
      have step: "rb_find_loop ar keyAt lo hi = rb_find_loop ar keyAt ?i hi"
        using False ge val by (subst rb_find_loop.simps) (simp add: Let_def)
      have "\<exists>k. ?i \<le> k \<and> k < hi \<and> rb_find_loop ar keyAt ?i hi = Some (block_at ar k) \<and>
             D k \<le> keyAt \<and> (keyAt < D (k + 1) \<or> (k + 1 = n \<and> keyAt \<le> D n))"
        using mid less.prems ge by (intro less.hyps) simp_all
      then obtain k where k: "?i \<le> k" "k < hi" "rb_find_loop ar keyAt ?i hi = Some (block_at ar k)"
          "D k \<le> keyAt" "keyAt < D (k + 1) \<or> (k + 1 = n \<and> keyAt \<le> D n)"
        by blast
      show ?thesis
        unfolding step using mid k by (intro exI [of _ k]) simp
    qed
  qed
qed

lemma block_at_fill:
  assumes "addressable block_pos sizes" and "k < length sizes"
  shows "block_at (arr (fill_record_block_table block_pos sizes)) (int k) =
           \<lparr>block_no = int k, comp_offset = block_pos + comp_before sizes k,
            comp_size = fst (sizes ! k), decomp_offset = decomp_before sizes k,
            decomp_size = snd (sizes ! k)\<rparr>"
proof -
  have idx: "2 * int k + 2 = 2 * int (Suc k)" "2 * int k + 3 = 2 * int (Suc k) + 1"
    by simp_all
  have "k \<le> length sizes" and "Suc k \<le> length sizes"
    using assms(2) by simp_all
  note r = fill_reads [OF assms(1) this(1)] fill_reads [OF assms(1) this(2)]
  show ?thesis
    unfolding block_at_def Let_def idx r using assms(2) by (simp add: before_Suc)
qed

text \<open>
  C6. For every record block table filled from the sizes of \<open>num_blocks\<close> blocks whose
  offsets fit 32 bits, and every integer \<open>keyAt\<close>: \<open>find\<close> returns nothing when \<open>keyAt\<close> is
  negative or exceeds the sentinel's decompressed offset; and for \<open>0 \<le> keyAt\<close> below the
  total decompressed size it returns the descriptor (number, compressed offset and size,
  decompressed offset and size) of block \<open>k\<close>, which is the one block whose half-open
  range of decompressed offsets contains \<open>keyAt\<close>.
\<close>

theorem rb_find_block:
  assumes "addressable block_pos sizes"
  shows "(keyAt < 0 \<or> decomp_before sizes (length sizes) < keyAt \<longrightarrow>
           rb_find (fill_record_block_table block_pos sizes) keyAt = None) \<and>
         (0 \<le> keyAt \<and> keyAt < decomp_before sizes (length sizes) \<longrightarrow>
           (\<exists>k < length sizes.
              rb_find (fill_record_block_table block_pos sizes) keyAt =
                Some \<lparr>block_no = int k, comp_offset = block_pos + comp_before sizes k,
                      comp_size = fst (sizes ! k), decomp_offset = decomp_before sizes k,
                      decomp_size = snd (sizes ! k)\<rparr> \<and>
              (\<forall>j < length sizes.
                 (decomp_before sizes j \<le> keyAt \<and> keyAt < decomp_before sizes j + snd (sizes ! j))
                   = (j = k))))"
proof (intro conjI impI)
  let ?T = "fill_record_block_table block_pos sizes"
  let ?n = "length sizes"
  let ?D = "\<lambda>k. decomp_before sizes (nat k)"
  have hi: "int (length (arr ?T) div 2) - 1 = int ?n"
    by (simp add: length_fill)
  have sentinel: "u32_at (arr ?T) (2 * int ?n + 1) = Some (decomp_before sizes ?n)"
    using assms by (intro fill_reads) simp_all
  have nn: "list_all (\<lambda>(c, d). 0 \<le> c \<and> 0 \<le> d) sizes"
    using assms by (simp add: addressable_def)
  {
    assume "keyAt < 0 \<or> decomp_before sizes ?n < keyAt"
    then show "rb_find ?T keyAt = None"
      unfolding rb_find_def Let_def hi sentinel by auto
  }
  {
    assume range: "0 \<le> keyAt \<and> keyAt < decomp_before sizes ?n"
    have reads: "u32_at (arr ?T) (2 * k + 1) = Some (?D k)" if "0 \<le> k" "k \<le> int ?n" for k
      using fill_reads(2) [OF assms, of "nat k"] that by simp
    have "0 < ?n"
      using range by (cases sizes) (auto simp add: decomp_before_def)
    then have "\<exists>k. 0 \<le> k \<and> k < int ?n \<and> rb_find_loop (arr ?T) keyAt 0 (int ?n) = Some (block_at (arr ?T) k) \<and>
             ?D k \<le> keyAt \<and> (keyAt < ?D (k + 1) \<or> (k + 1 = int ?n \<and> keyAt \<le> ?D (int ?n)))"
      using range by (intro rb_find_loop_bracket reads) (simp_all add: decomp_before_def)
    then obtain i where i: "0 \<le> i" "i < int ?n"
        "rb_find_loop (arr ?T) keyAt 0 (int ?n) = Some (block_at (arr ?T) i)"
        "?D i \<le> keyAt" "keyAt < ?D (i + 1) \<or> (i + 1 = int ?n \<and> keyAt \<le> ?D (int ?n))"
      by blast
    define k where "k = nat i"
    have k: "k < ?n" "i = int k"
      using i(1,2) by (simp_all add: k_def)
    have Suc: "nat (int k + 1) = Suc k"
      by simp
    have lower: "decomp_before sizes k \<le> keyAt"
      using i(4) by (simp add: k)
    have upper: "keyAt < decomp_before sizes (Suc k)"
    proof (cases "keyAt < ?D (i + 1)")
      case True
      then show ?thesis by (simp add: k Suc)
    next
      case False
      then have "int k + 1 = int ?n"
        using i(5) by (simp add: k)
      then have "Suc k = ?n"
        by linarith
      then show ?thesis
        using range by simp
    qed
    have found: "rb_find ?T keyAt = Some (block_at (arr ?T) (int k))"
      unfolding rb_find_def Let_def hi sentinel using range i(3) by (simp add: k)
    have unique: "(decomp_before sizes j \<le> keyAt \<and> keyAt < decomp_before sizes j + snd (sizes ! j))
                   = (j = k)" if j: "j < ?n" for j
    proof
      assume in_j: "decomp_before sizes j \<le> keyAt \<and> keyAt < decomp_before sizes j + snd (sizes ! j)"
      then have upper_j: "keyAt < decomp_before sizes (Suc j)"
        using j by (simp add: before_Suc)
      show "j = k"
      proof (rule ccontr)
        assume "j \<noteq> k"
        then consider "Suc j \<le> k" | "Suc k \<le> j"
          by linarith
        then show False
        proof cases
          case 1
          then show ?thesis
            using before_mono(2) [OF nn 1] upper_j lower by simp
        next
          case 2
          then show ?thesis
            using before_mono(2) [OF nn 2] upper in_j by simp
        qed
      qed
    next
      assume "j = k"
      then show "decomp_before sizes j \<le> keyAt \<and> keyAt < decomp_before sizes j + snd (sizes ! j)"
        using lower upper k(1) by (simp add: before_Suc)
    qed
    show "\<exists>k < ?n.
              rb_find ?T keyAt =
                Some \<lparr>block_no = int k, comp_offset = block_pos + comp_before sizes k,
                      comp_size = fst (sizes ! k), decomp_offset = decomp_before sizes k,
                      decomp_size = snd (sizes ! k)\<rparr> \<and>
              (\<forall>j < ?n.
                 (decomp_before sizes j \<le> keyAt \<and> keyAt < decomp_before sizes j + snd (sizes ! j))
                   = (j = k))"
      using k(1) found unique by (intro exI [of _ k]) (simp add: block_at_fill [OF assms])
  }
qed

theorem rb_find_block_witness:
  "addressable 100 [(10, 20), (5, 7), (8, 9)] \<and>
   rb_find (fill_record_block_table 100 [(10, 20), (5, 7), (8, 9)]) (- 1) = None \<and>
   rb_find (fill_record_block_table 100 [(10, 20), (5, 7), (8, 9)]) 37 = None \<and>
   rb_find (fill_record_block_table 100 [(10, 20), (5, 7), (8, 9)]) 26 =
     Some \<lparr>block_no = 1, comp_offset = 110, comp_size = 5, decomp_offset = 20, decomp_size = 7\<rparr>"
proof -
  let ?sizes = "[(10, 20), (5, 7), (8, 9)] :: (int \<times> int) list"
  have a: "addressable 100 ?sizes"
    by (simp add: addressable_def comp_before_def decomp_before_def)
  have t: "decomp_before ?sizes (length ?sizes) = 36" "decomp_before ?sizes 1 = 20"
      "comp_before ?sizes 1 = 10"
    by (simp_all add: decomp_before_def comp_before_def)
  have outside: "rb_find (fill_record_block_table 100 ?sizes) (- 1) = None"
      "rb_find (fill_record_block_table 100 ?sizes) 37 = None"
    using rb_find_block [OF a, of "- 1", unfolded t] rb_find_block [OF a, of 37, unfolded t]
    by simp_all
  obtain k where k: "k < length ?sizes"
      "rb_find (fill_record_block_table 100 ?sizes) 26 =
         Some \<lparr>block_no = int k, comp_offset = 100 + comp_before ?sizes k,
               comp_size = fst (?sizes ! k), decomp_offset = decomp_before ?sizes k,
               decomp_size = snd (?sizes ! k)\<rparr>"
      "\<forall>j < length ?sizes.
         (decomp_before ?sizes j \<le> 26 \<and> 26 < decomp_before ?sizes j + snd (?sizes ! j)) = (j = k)"
    using rb_find_block [OF a, of 26, unfolded t] by auto
  have "k = 1"
    using k(3) [rule_format, of 1] by (simp add: decomp_before_def)
  then show ?thesis
    using a outside k(2) by (simp add: decomp_before_def comp_before_def)
qed

lemma utf8_v2_simps: "v2 utf8_v2" "\<not> utf16 utf8_v2" "bpu utf8_v2 = 1" "tail utf8_v2 = 1"
  by (simp_all add: utf8_v2_def v2_def utf16_def bpu_def tail_def encoding_def)

lemma utf8_v2_keys: "\<not> isTrue (KeyCaseSensitive utf8_v2)" "\<not> isTrue (StripKey utf8_v2)"
  by code_simp+

lemma utf16_v2_simps: "v2 utf16_v2" "utf16 utf16_v2" "bpu utf16_v2 = 2" "tail utf16_v2 = 2"
  by (simp_all add: utf16_v2_def v2_def utf16_def bpu_def tail_def encoding_def)

section \<open>Properties of the scanner\<close>

text \<open>
  C5, as stated, fails: a block whose tag is \<open>00 03 03 00\<close> (not 0, 1 or 2, read big
  endian or little endian) makes \<open>readBlock\<close> return the scanner it was called on, eight
  bytes further, although both codecs of the environment reject every payload.
\<close>

theorem readBlock_unknown_tag_counterexample:
  "getUint 4 [0, 3, 3, 0, 1, 2, 3, 4, 9, 9] 0 = Inr 197376 \<and>
   fst (readBlock (plain_ext (\<lambda>s. 0)) utf8_v2 10 None None (Scanner [0, 3, 3, 0, 1, 2, 3, 4, 9, 9])) =
     Inr \<lparr>buf = [0, 3, 3, 0, 1, 2, 3, 4, 9, 9], offset = 8\<rparr>"
  by (simp add: readBlock_def getUint_def view_bytes_def be_uint_def Scanner_def forward_def
      utf8_v2_simps Let_def)

text \<open>
  C5, amended. \<open>readBlock\<close> reads the first byte of the tag only. When it is 0 the block
  is taken as uncompressed and the scanner itself is returned (eight bytes further in
  version 2), with or without a decryptor. When it is not 0 and the payload lies within
  the buffer, the payload, decrypted first when a decryptor is given, goes to \<open>inflate\<close>
  when the byte is 2 and to the LZO decompressor when it is anything else: the result is
  a scanner over the codec's output, and \<open>readBlock\<close> fails exactly when the codec does.
  When the payload does not lie within the buffer \<open>readBlock\<close> fails with the
  \<open>RangeError\<close> of the view.
\<close>

theorem readBlock_by_first_byte:
  assumes "getUint 1 (buf s) (offset s) = Inr t"
  shows "(t = 0 \<longrightarrow>
            readBlock x a len expected decryptor s =
              (Inr (if v2 a then forward 8 s else s), if v2 a then forward 8 s else s)) \<and>
         (t \<noteq> 0 \<and> view_bytes (buf s) (offset s + 8) (len - 8) = Inr tmp \<longrightarrow>
            fst (readBlock x a len expected decryptor s) =
              (let payload = (case decryptor of
                                None \<Rightarrow> tmp
                              | Some dec \<Rightarrow> dec tmp (passkey_of (buf s) (offset s + 8)))
               in case (if t = 2 then inflate x payload else lzo_decompress x payload expected) of
                    None \<Rightarrow> Inl CodecError
                  | Some out \<Rightarrow> Inr (Scanner out))) \<and>
         (t \<noteq> 0 \<and> view_bytes (buf s) (offset s + 8) (len - 8) = Inl e \<longrightarrow>
            fst (readBlock x a len expected decryptor s) = Inl e)"
  using assms
  by (auto simp add: readBlock_def Let_def forward_def split: option.splits)

theorem readBlock_by_first_byte_witness:
  "getUint 1 (buf (Scanner [3, 0, 0, 0, 1, 2, 3, 4, 9, 9])) (offset (Scanner [3, 0, 0, 0, 1, 2, 3, 4, 9, 9])) = Inr 3 \<and>
   view_bytes [3, 0, 0, 0, 1, 2, 3, 4, 9, 9] 8 2 = Inr [9, 9] \<and>
   fst (readBlock (plain_ext (\<lambda>s. 0)) utf8_v2 10 None None (Scanner [3, 0, 0, 0, 1, 2, 3, 4, 9, 9])) =
     Inl CodecError \<and>
   fst (readBlock ((plain_ext (\<lambda>s. 0))\<lparr>lzo_decompress := \<lambda>t n. Some (rev t)\<rparr>) utf8_v2 10 None None
          (Scanner [3, 0, 0, 0, 1, 2, 3, 4, 7, 9])) = Inr (Scanner [9, 7]) \<and>
   fst (readBlock ((plain_ext (\<lambda>s. 0))\<lparr>inflate := \<lambda>t. Some (rev t)\<rparr>) utf8_v2 10 None None
          (Scanner [2, 0, 0, 0, 1, 2, 3, 4, 7, 9])) = Inr (Scanner [9, 7]) \<and>
   fst (readBlock ((plain_ext (\<lambda>s. 0))\<lparr>inflate := \<lambda>t. Some (rev t)\<rparr>) utf8_v2 10 None
          (Some (decrypt (plain_ext (\<lambda>s. 0)))) (Scanner [2, 0, 0, 0, 1, 2, 3, 4, 0x12, 0x34])) =
     Inr (Scanner [0x52, 0x16]) \<and>
   fst (readBlock (plain_ext (\<lambda>s. 0)) utf8_v2 12 None None (Scanner [3, 0, 0, 0, 1, 2, 3, 4, 9, 9])) =
     Inl RangeError"
proof -
  let ?x = "plain_ext (\<lambda>s. 0)"
  have g: "getUint 1 (buf (Scanner [3, 0, 0, 0, 1, 2, 3, 4, 9, 9])) (offset (Scanner [3, 0, 0, 0, 1, 2, 3, 4, 9, 9])) = Inr 3"
    "getUint 1 (buf (Scanner [3, 0, 0, 0, 1, 2, 3, 4, 7, 9])) (offset (Scanner [3, 0, 0, 0, 1, 2, 3, 4, 7, 9])) = Inr 3"
    "getUint 1 (buf (Scanner [2, 0, 0, 0, 1, 2, 3, 4, 7, 9])) (offset (Scanner [2, 0, 0, 0, 1, 2, 3, 4, 7, 9])) = Inr 2"
    "getUint 1 (buf (Scanner [2, 0, 0, 0, 1, 2, 3, 4, 0x12, 0x34])) (offset (Scanner [2, 0, 0, 0, 1, 2, 3, 4, 0x12, 0x34])) = Inr 2"
    by (simp_all add: getUint_def view_bytes_def be_uint_def Scanner_def)
  have v: "view_bytes [3, 0, 0, 0, 1, 2, 3, 4, 9, 9] 8 2 = Inr [9, 9]"
          "view_bytes [3, 0, 0, 0, 1, 2, 3, 4, 7, 9] 8 2 = Inr [7, 9]"
          "view_bytes [2, 0, 0, 0, 1, 2, 3, 4, 7, 9] 8 2 = Inr [7, 9]"
          "view_bytes [2, 0, 0, 0, 1, 2, 3, 4, 0x12, 0x34] 8 2 = Inr [0x12, 0x34]"
          "view_bytes [3, 0, 0, 0, 1, 2, 3, 4, 9, 9] 8 4 = Inl RangeError"
    by (simp_all add: view_bytes_def)
  have d: "decrypt ?x [0x12, 0x34] (passkey_of [2, 0, 0, 0, 1, 2, 3, 4, 0x12, 0x34] 8) = [0x16, 0x52]"
    by code_simp
  show ?thesis
    using readBlock_by_first_byte [OF g(1), of ?x utf8_v2 10 None None "[9, 9]" RangeError]
      readBlock_by_first_byte [OF g(2), of "?x\<lparr>lzo_decompress := \<lambda>t n. Some (rev t)\<rparr>"
        utf8_v2 10 None None "[7, 9]" RangeError]
      readBlock_by_first_byte [OF g(3), of "?x\<lparr>inflate := \<lambda>t. Some (rev t)\<rparr>"
        utf8_v2 10 None None "[7, 9]" RangeError]
      readBlock_by_first_byte [OF g(4), of "?x\<lparr>inflate := \<lambda>t. Some (rev t)\<rparr>"
        utf8_v2 10 None "Some (decrypt ?x)" "[0x12, 0x34]" RangeError]
      readBlock_by_first_byte [OF g(1), of ?x utf8_v2 12 None None "[]" RangeError]
      g(1) v d
    by (simp add: Scanner_def plain_ext_def)
qed

text \<open>The scan for the terminator, one byte at a time.\<close>

lemma getUint_1_at:
  "getUint 1 (front @ b # rest) (int (length front)) = Inr (uint b)"
  "getUint (Suc 0) (front @ b # rest) (int (length front)) = Inr (uint b)"
  by (simp_all add: getUint_def view_bytes_def be_uint_def)

lemma getUint_2_at:
  "getUint 2 (front @ b # c # rest) (int (length front)) = Inr (uint b * 256 + uint c)"
  by (simp add: getUint_def view_bytes_def be_uint_def)

lemma search_nul_1:
  "0 \<notin> set bs \<Longrightarrow>
   search_nul 1 (front @ bs @ 0 # rest) (int (length front)) = Inr (int (length front) + int (length bs) + 1)"
proof (induction bs arbitrary: front)
  case Nil
  show ?case
    by (subst search_nul.simps) (simp add: getUint_1_at)
next
  case (Cons b bs)
  have "search_nul 1 ((front @ [b]) @ bs @ 0 # rest) (int (length (front @ [b]))) =
          Inr (int (length (front @ [b])) + int (length bs) + 1)"
    using Cons.prems by (intro Cons.IH) simp
  moreover have "uint b \<noteq> 0"
    using Cons.prems by (auto simp add: uint_0_iff)
  ultimately show ?case
    by (subst search_nul.simps) (simp add: getUint_1_at add.commute)
qed

lemma pair_zero: "uint (b :: byte) * 256 + uint (c :: byte) = 0 \<longleftrightarrow> b = 0 \<and> c = 0"
proof -
  have "0 \<le> uint b" "0 \<le> uint c"
    by simp_all
  then have "uint b * 256 + uint c = 0 \<longleftrightarrow> uint b = 0 \<and> uint c = 0"
    by linarith
  then show ?thesis
    by (simp add: uint_0_iff)
qed

text \<open>
  In UTF-16 the scan reads two bytes at every byte offset. It ends at the terminator when
  the text's last byte is 0 and no two neighbours among the text's bytes are 0.
\<close>

lemma search_nul_2:
  assumes "bs \<noteq> []" and "last bs = 0"
    and "\<And>i. Suc i < length bs \<Longrightarrow> bs ! i \<noteq> 0 \<or> bs ! Suc i \<noteq> 0"
  shows "search_nul 2 (front @ bs @ 0 # 0 # rest) (int (length front)) = Inr (int (length front) + int (length bs))"
  using assms
proof (induction bs arbitrary: front)
  case Nil
  then show ?case by simp
next
  case (Cons b bs)
  show ?case
  proof (cases bs)
    case Nil
    then have "b = 0"
      using Cons.prems(2) by simp
    then show ?thesis
      using Nil by (subst search_nul.simps) (simp add: getUint_2_at)
  next
    case (Cons c bs')
    have pair: "b \<noteq> 0 \<or> c \<noteq> 0"
      using Cons.prems(3) [of 0] Cons by simp
    have rest: "search_nul 2 ((front @ [b]) @ bs @ 0 # 0 # rest) (int (length (front @ [b]))) =
          Inr (int (length (front @ [b])) + int (length bs))"
    proof (intro Cons.IH)
      show "bs \<noteq> []" using Cons by simp
      show "last bs = 0" using Cons.prems(2) Cons by simp
      show "bs ! i \<noteq> 0 \<or> bs ! Suc i \<noteq> 0" if "Suc i < length bs" for i
        using Cons.prems(3) [of "Suc i"] that by simp
    qed
    have g: "getUint 2 (front @ (b # bs) @ 0 # 0 # rest) (int (length front)) =
               Inr (uint b * 256 + uint c)"
      using getUint_2_at [of front b c "bs' @ 0 # 0 # rest"] Cons by simp
    have nz: "uint b * 256 + uint c \<noteq> 0"
      using pair by (simp add: pair_zero)
    have r: "search_nul 2 (front @ (b # bs) @ 0 # 0 # rest) (int (length front) + 1) =
               Inr (int (length front) + int (length (b # bs)))"
      using rest by (simp add: add.commute add.left_commute)
    show ?thesis
      by (subst search_nul.simps) (simp only: g nz r sum.case if_True simp_thms)
  qed
qed

text \<open>
  C8, as stated, fails: in a version 2 dictionary (tail padding of one unit) with a
  single-byte encoding, \<open>readText\<close> on \<open>ab\\0cd\<close> returns \<open>ab\<close> and leaves the cursor at 3,
  just past the terminator, not at 4.
\<close>

theorem readText_tail_counterexample:
  "v2 utf8_v2 \<and> tail utf8_v2 = 1 \<and>
   readText (plain_ext (\<lambda>s. 0)) utf8_v2 (Scanner [0x61, 0x62, 0, 0x63, 0x64]) =
     (Inr ''ab'', \<lparr>buf = [0x61, 0x62, 0, 0x63, 0x64], offset = 3\<rparr>)"
proof -
  have "search_nul 1 ([] @ [0x61, 0x62] @ 0 # [0x63, 0x64]) (int (length ([] :: byte list))) = Inr 3"
    by (subst search_nul_1) simp_all
  moreover have "ascii_text [0x61, 0x62] = ''ab''"
    by code_simp
  ultimately show ?thesis
    by (simp add: readText_def searchTextLen_def utf8_v2_simps Scanner_def conseq_def forward_def
        view_bytes_def decoder_def plain_ext_def)
qed

text \<open>
  C8, amended. For every buffer holding at the cursor a text followed by its terminator
  (one NUL byte, two in UTF-16), \<open>readText\<close> returns the decoding of exactly the bytes
  before the terminator and leaves the cursor just past the terminator, in version 1
  and version 2 alike. In a single-byte encoding this holds of every text without a NUL
  byte; in UTF-16 of the texts whose last byte is 0 (a last code unit below 256) and among
  whose bytes no two neighbours are 0.
\<close>

theorem readText_terminated:
  assumes "buf s = front @ bs @ replicate (nat (bpu a)) 0 @ rest"
    and "offset s = int (length front)"
    and "terminated_text a bs"
  shows "readText x a s =
           (Inr (decoder x a bs), s\<lparr>offset := int (length front) + int (length bs) + bpu a\<rparr>)"
proof -
  have len: "searchTextLen a (buf s) (offset s) = Inr (int (length bs))"
  proof (cases "utf16 a")
    case True
    then have "search_nul 2 (front @ bs @ 0 # 0 # rest) (int (length front)) =
                 Inr (int (length front) + int (length bs))"
      using assms(3) by (intro search_nul_2) (simp_all add: terminated_text_def)
    then show ?thesis
      using True by (simp add: searchTextLen_def assms(1,2) bpu_def numeral_2_eq_2)
  next
    case False
    then have "search_nul 1 (front @ bs @ 0 # rest) (int (length front)) =
                 Inr (int (length front) + int (length bs) + 1)"
      using assms(3) by (intro search_nul_1) (simp add: terminated_text_def)
    then show ?thesis
      using False by (simp add: searchTextLen_def assms(1,2) bpu_def)
  qed
  have view: "view_bytes (buf s) (int (length front)) (int (length bs)) = Inr bs"
    by (simp add: view_bytes_def assms(1))
  show ?thesis
    unfolding readText_def len
    by (simp add: view conseq_def forward_def assms(2) add.assoc)
qed

theorem readText_terminated_witness:
  "terminated_text utf8_v2 [0x61, 0x62] \<and>
   readText (plain_ext (\<lambda>s. 0)) utf8_v2 \<lparr>buf = [7, 0x61, 0x62, 0, 9], offset = 1\<rparr> =
     (Inr ''ab'', \<lparr>buf = [7, 0x61, 0x62, 0, 9], offset = 4\<rparr>) \<and>
   terminated_text utf16_v2 [0x61, 0, 0x62, 0] \<and>
   readText (plain_ext (\<lambda>s. 0)) utf16_v2 \<lparr>buf = [7, 0x61, 0, 0x62, 0, 0, 0, 9], offset = 1\<rparr> =
     (Inr (ascii_text [0x61, 0, 0x62, 0]), \<lparr>buf = [7, 0x61, 0, 0x62, 0, 0, 0, 9], offset = 7\<rparr>)"
proof -
  have t8: "terminated_text utf8_v2 [0x61, 0x62]"
    by (simp add: terminated_text_def utf8_v2_simps)
  have t16: "terminated_text utf16_v2 [0x61, 0, 0x62, 0]"
    by (simp add: terminated_text_def utf16_v2_simps less_Suc_eq nth_Cons')
  have a: "ascii_text [0x61, 0x62] = ''ab''"
    by code_simp
  show ?thesis
    using readText_terminated [of "\<lparr>buf = [7, 0x61, 0x62, 0, 9], offset = 1\<rparr>" "[7]" "[0x61, 0x62]"
        utf8_v2 "[9]" "plain_ext (\<lambda>s. 0)", OF _ _ t8]
      readText_terminated [of "\<lparr>buf = [7, 0x61, 0, 0x62, 0, 0, 0, 9], offset = 1\<rparr>" "[7]"
        "[0x61, 0, 0x62, 0]" utf16_v2 "[9]" "plain_ext (\<lambda>s. 0)", OF _ _ t16]
      t8 t16 a
    by (simp add: utf8_v2_simps utf16_v2_simps decoder_def plain_ext_def numeral_2_eq_2)
qed

lemma buf_conseq: "buf (snd (conseq r n s)) = buf s"
  by (cases r) (simp_all add: conseq_def forward_def)

lemma length_decrypt: "length (decrypt x b k) = length b"
  by (simp add: decrypt_def length_decrypt_loop)

lemma buf_readBlock_plain: "buf (snd (readBlock x a len expected None s)) = buf s"
  by (simp add: readBlock_def Let_def forward_def split: sum.splits option.splits)

lemma buf_readBlock_decrypt:
  "buf (snd (readBlock x a len expected (Some (decrypt x)) s)) =
     (if decrypts_in_place s len
      then take (nat (offset s + 8)) (buf s) @
           decrypt x (payload s len) (passkey_of (buf s) (offset s + 8)) @
           drop (nat (offset s + len)) (buf s)
      else buf s)"
proof (cases "getUint 1 (buf s) (offset s)")
  case (Inl e)
  then show ?thesis
    by (simp add: readBlock_def decrypts_in_place_def)
next
  case (Inr comp_type)
  then have off: "0 \<le> offset s"
    by (auto simp add: getUint_def view_bytes_def split: if_splits)
  show ?thesis
  proof (cases "comp_type = 0")
    case True
    then show ?thesis
      using Inr by (simp add: readBlock_def decrypts_in_place_def Let_def forward_def)
  next
    case False
    show ?thesis
    proof (cases "8 \<le> len \<and> offset s + len \<le> int (length (buf s))")
      case in_range: True
      then have view: "view_bytes (buf s) (offset s + 8) (len - 8) = Inr (payload s len)"
        using off by (simp add: view_bytes_def payload_def)
      have fits: "nat (len - 8) \<le> length (buf s) - nat (offset s + 8)"
        using in_range off by arith
      have len: "length (payload s len) = nat (len - 8)"
        using fits by (simp add: payload_def)
      have w: "write_at (buf s) (nat (offset s + 8)) (decrypt x (payload s len) k) =
                 take (nat (offset s + 8)) (buf s) @ decrypt x (payload s len) k @
                 drop (nat (offset s + len)) (buf s)" for k
      proof -
        have "nat (offset s + 8) + nat (len - 8) = nat (offset s + len)"
          using in_range off by arith
        then show ?thesis
          using fits
          by (simp add: write_at_def length_decrypt len)
      qed
      show ?thesis
        using Inr False in_range
        by (simp add: readBlock_def Let_def forward_def view w decrypts_in_place_def
            split: option.splits)
    next
      case out_of_range: False
      then have "view_bytes (buf s) (offset s + 8) (len - 8) = Inl RangeError"
        using off by (auto simp add: view_bytes_def)
      then show ?thesis
        using Inr False out_of_range
        by (auto simp add: readBlock_def Let_def forward_def decrypts_in_place_def)
    qed
  qed
qed

text \<open>
  C10, as stated, fails: with a decryptor supplied, \<open>readBlock\<close> on a block whose first
  tag byte is 0 leaves the buffer as it is; the payload bytes are not replaced by their
  decrypted values.
\<close>

theorem readBlock_decryptor_counterexample:
  "buf (snd (readBlock (plain_ext (\<lambda>s. 0)) utf8_v2 10 None (Some (decrypt (plain_ext (\<lambda>s. 0))))
               (Scanner [0, 0, 0, 0, 1, 2, 3, 4, 0x12, 0x34]))) =
     [0, 0, 0, 0, 1, 2, 3, 4, 0x12, 0x34] \<and>
   decrypt (plain_ext (\<lambda>s. 0)) [0x12, 0x34] (passkey_of [0, 0, 0, 0, 1, 2, 3, 4, 0x12, 0x34] 8) =
     [0x16, 0x52]"
proof -
  have "decrypt (plain_ext (\<lambda>s. 0)) [0x12, 0x34] (passkey_of [0, 0, 0, 0, 1, 2, 3, 4, 0x12, 0x34] 8) =
     [0x16, 0x52]"
    by code_simp
  then show ?thesis
    by (simp add: readBlock_def getUint_def view_bytes_def be_uint_def Scanner_def forward_def
      utf8_v2_simps Let_def)
qed

text \<open>
  C10, amended. The read operations \<open>readInt\<close>, \<open>readUint16\<close>, \<open>readUint8\<close>, \<open>readUTF16\<close>,
  \<open>readText\<close>, \<open>readTextSized\<close>, \<open>readRaw\<close> and \<open>checksum\<close> (and \<open>readShort\<close>, \<open>readNum\<close>)
  leave every byte of the buffer unchanged, whether they return or throw. \<open>readBlock\<close>
  without a decryptor leaves it unchanged too. With the decryptor it changes the buffer
  only when the block's first tag byte is not 0 and the block lies within the buffer;
  then the bytes of the payload (the block without its 8-byte preamble) are replaced by
  their decrypted values, and every other byte stays.
\<close>

theorem scanner_frame:
  "buf (snd (readInt s)) = buf s \<and> buf (snd (readUint16 s)) = buf s \<and>
   buf (snd (readUint8 s)) = buf s \<and> buf (snd (readShort a s)) = buf s \<and>
   buf (snd (readNum a s)) = buf s \<and> buf (snd (readUTF16 x n s)) = buf s \<and>
   buf (snd (readText x a s)) = buf s \<and> buf (snd (readTextSized x a n s)) = buf s \<and>
   buf (snd (readRaw m s)) = buf s \<and> buf (snd (checksum s)) = buf s \<and>
   buf (snd (readBlock x a len expected None s)) = buf s \<and>
   buf (snd (readBlock x a len expected (Some (decrypt x)) s)) =
     (if decrypts_in_place s len
      then take (nat (offset s + 8)) (buf s) @
           decrypt x (payload s len) (passkey_of (buf s) (offset s + 8)) @
           drop (nat (offset s + len)) (buf s)
      else buf s)"
proof -
  have "buf (snd (readText x a s)) = buf s"
    by (cases "searchTextLen a (buf s) (offset s)") (simp_all add: readText_def buf_conseq)
  moreover have "buf (snd (readRaw m s)) = buf s"
    by (cases m) (simp_all add: readRaw_def buf_conseq)
  moreover have "buf (snd (readNum a s)) = buf s"
    using buf_conseq [of _ _ "forward 4 s"]
    by (simp add: readNum_def readInt_def buf_conseq forward_def)
  ultimately show ?thesis
    by (simp add: readInt_def readUint16_def readUint8_def readShort_def readUTF16_def
        readTextSized_def checksum_def buf_conseq forward_def Let_def
        buf_readBlock_plain buf_readBlock_decrypt)
qed

theorem scanner_frame_witness:
  "decrypts_in_place (Scanner [2, 0, 0, 0, 1, 2, 3, 4, 0x12, 0x34, 7]) 10 \<and>
   buf (snd (readBlock (plain_ext (\<lambda>s. 0)) utf8_v2 10 None (Some (decrypt (plain_ext (\<lambda>s. 0))))
               (Scanner [2, 0, 0, 0, 1, 2, 3, 4, 0x12, 0x34, 7]))) =
     [2, 0, 0, 0, 1, 2, 3, 4, 0x16, 0x52, 7] \<and>
   \<not> decrypts_in_place (Scanner [0, 0, 0, 0, 1, 2, 3, 4, 0x12, 0x34, 7]) 10 \<and>
   buf (snd (readBlock (plain_ext (\<lambda>s. 0)) utf8_v2 10 None (Some (decrypt (plain_ext (\<lambda>s. 0))))
               (Scanner [0, 0, 0, 0, 1, 2, 3, 4, 0x12, 0x34, 7]))) =
     [0, 0, 0, 0, 1, 2, 3, 4, 0x12, 0x34, 7]"
proof -
  let ?x = "plain_ext (\<lambda>s. 0)"
  have d: "decrypts_in_place (Scanner [2, 0, 0, 0, 1, 2, 3, 4, 0x12, 0x34, 7]) 10"
    "\<not> decrypts_in_place (Scanner [0, 0, 0, 0, 1, 2, 3, 4, 0x12, 0x34, 7]) 10"
    by (simp_all add: decrypts_in_place_def getUint_def view_bytes_def be_uint_def Scanner_def)
  have p: "decrypt ?x (payload (Scanner [2, 0, 0, 0, 1, 2, 3, 4, 0x12, 0x34, 7]) 10)
             (passkey_of (buf (Scanner [2, 0, 0, 0, 1, 2, 3, 4, 0x12, 0x34, 7]))
                (offset (Scanner [2, 0, 0, 0, 1, 2, 3, 4, 0x12, 0x34, 7]) + 8)) = [0x16, 0x52]"
    by code_simp
  show ?thesis
    using scanner_frame [of "Scanner [2, 0, 0, 0, 1, 2, 3, 4, 0x12, 0x34, 7]" utf8_v2 ?x 0 None 10 None]
      scanner_frame [of "Scanner [0, 0, 0, 0, 1, 2, 3, 4, 0x12, 0x34, 7]" utf8_v2 ?x 0 None 10 None]
    by (simp add: d p) (simp add: Scanner_def)
qed

section \<open>Properties of the resource key\<close>

text \<open>
  C3, as stated, fails: \<open>/img/a.png\<close> and \<open>img/a.png\<close> map to a backslash followed by
  \<open>img/a.png\<close>, which is not the stored key, a backslash, \<open>img\<close>, a backslash and
  \<open>a.png\<close>: the \<open>/\<close> inside the phrase is kept. The same holds of the older
  \<open>src/mdict-core.js\<close>.
\<close>

theorem mdd_word_counterexample:
  "mdd_word ''/img/a.png'' = backslash # ''img/a.png'' \<and>
   mdd_word ''img/a.png'' = backslash # ''img/a.png'' \<and>
   mdd_word_core ''/img/a.png'' = backslash # ''img/a.png'' \<and>
   mdd_word_core ''img/a.png'' = backslash # ''img/a.png'' \<and>
   backslash # ''img/a.png'' \<noteq> backslash # ''img'' @ backslash # ''a.png''"
  by (simp add: mdd_word_def mdd_word_core_def strip_separator_def strip_separator_core_def
      toLowerCase_def trim_def lower_char_def is_space_def backslash_def)

lemma lower_char_not_upper:
  assumes "(of_char d :: nat) < 65 \<or> (90 < (of_char d :: nat) \<and> (of_char d :: nat) < 97)"
  shows "lower_char c = d \<longleftrightarrow> c = d"
proof (cases "(65 \<le> (of_char c :: nat) \<and> (of_char c :: nat) \<le> 90) \<or>
              (192 \<le> (of_char c :: nat) \<and> (of_char c :: nat) \<le> 222 \<and> (of_char c :: nat) \<noteq> 215)")
  case True
  then have l: "lower_char c = char_of ((of_char c :: nat) + 32)"
    by (simp add: lower_char_def Let_def)
  have "(of_char (lower_char c) :: nat) = ((of_char c :: nat) + 32) mod 256"
    unfolding l by simp
  moreover have "(of_char c :: nat) < 256"
    by simp
  ultimately have "(of_char (lower_char c) :: nat) = (of_char c :: nat) + 32"
    using True by auto
  then have "(of_char (lower_char c) :: nat) \<noteq> of_char d" and "(of_char c :: nat) \<noteq> of_char d"
    using True assms by auto
  then show ?thesis
    by auto
next
  case False
  then have "lower_char c = c"
    unfolding lower_char_def Let_def by (simp only: if_False)
  then show ?thesis
    by simp
qed

lemma lower_char_separator:
  "lower_char c = CHR ''/'' \<longleftrightarrow> c = CHR ''/''"
  "lower_char c = backslash \<longleftrightarrow> c = backslash"
  by (simp_all add: lower_char_not_upper backslash_def)

lemma not_space_separator: "\<not> is_space CHR ''/''" "\<not> is_space backslash"
  by (simp_all add: is_space_def backslash_def)

lemma trim_prefix:
  assumes "p \<noteq> []" and "\<not> is_space (hd p)"
  shows "trim p \<noteq> []" and "hd (trim p) = hd p" and "trim (c # p) = (if is_space c then trim p else c # trim p)"
proof -
  have left: "dropWhile is_space p = p"
    using assms by (cases p) simp_all
  have mem: "hd p \<in> set (rev p)"
    using assms(1) by simp
  then have ne: "dropWhile is_space (rev p) \<noteq> []"
    using assms(2) by (auto simp add: dropWhile_eq_Nil_conv)
  then show "trim p \<noteq> []"
    by (simp add: trim_def left)
  have "p = rev (dropWhile is_space (rev p)) @ rev (takeWhile is_space (rev p))"
    using takeWhile_dropWhile_id [of is_space "rev p"]
    by (metis rev_append rev_rev_ident)
  then have "p = trim p @ rev (takeWhile is_space (rev p))"
    by (simp add: trim_def left)
  with \<open>trim p \<noteq> []\<close> show "hd (trim p) = hd p"
    by (metis hd_append2)
  show "trim (c # p) = (if is_space c then trim p else c # trim p)"
  proof (cases "is_space c")
    case True
    then show ?thesis
      by (simp add: trim_def)
  next
    case False
    have "dropWhile is_space (rev p @ [c]) = dropWhile is_space (rev p) @ [c]"
      using mem assms(2) by (rule dropWhile_append1)
    with False show ?thesis
      by (simp add: trim_def left)
  qed
qed

text \<open>
  C3, amended. A phrase that begins with neither white space nor a separator and that,
  once trimmed, does not end with \<open>/\<close> maps to the same key whether it is written with a
  leading \<open>/\<close>, with a leading \<open>\\<close> or with neither: a backslash followed by the trimmed
  phrase in lower case. The separators inside the phrase stay as they are written. The
  same holds of the older \<open>src/mdict-core.js\<close>.
\<close>

theorem mdd_word_leading_separator:
  assumes "p \<noteq> []" and "\<not> is_space (hd p)"
    and "hd p \<noteq> CHR ''/''" and "hd p \<noteq> backslash" and "last (trim p) \<noteq> CHR ''/''"
  shows "mdd_word (CHR ''/'' # p) = backslash # toLowerCase (trim p) \<and>
         mdd_word (backslash # p) = backslash # toLowerCase (trim p) \<and>
         mdd_word p = backslash # toLowerCase (trim p) \<and>
         mdd_word_core (CHR ''/'' # p) = backslash # toLowerCase (trim p) \<and>
         mdd_word_core (backslash # p) = backslash # toLowerCase (trim p) \<and>
         mdd_word_core p = backslash # toLowerCase (trim p)"
proof -
  note tp = trim_prefix [OF assms(1,2)]
  have t: "trim (CHR ''/'' # p) = CHR ''/'' # trim p" "trim (backslash # p) = backslash # trim p"
    by (simp_all add: tp(3) not_space_separator)
  have hd: "hd (toLowerCase (trim p)) \<noteq> CHR ''/''" "hd (toLowerCase (trim p)) \<noteq> CHR 0x5C"
    using tp(1,2) assms(3,4) lower_char_separator [of "hd p"]
    by (simp_all add: toLowerCase_def hd_map backslash_def)
  have last: "last (toLowerCase (trim p)) \<noteq> CHR ''/''"
    using tp(1) assms(5) lower_char_separator(1) [of "last (trim p)"]
    by (simp add: toLowerCase_def last_map)
  have ne: "toLowerCase (trim p) \<noteq> []"
    using tp(1) by (simp add: toLowerCase_def)
  have sep: "lower_char CHR ''/'' = CHR ''/''" "lower_char backslash = backslash"
    by (simp_all add: lower_char_separator)
  have low: "toLowerCase (CHR ''/'' # q) = CHR ''/'' # toLowerCase q"
      "toLowerCase (backslash # q) = backslash # toLowerCase q" for q
    by (simp_all add: toLowerCase_def sep)
  show ?thesis
    unfolding mdd_word_def mdd_word_core_def t low
    using hd last ne
    by (simp add: strip_separator_def strip_separator_core_def backslash_def)
qed

theorem mdd_word_leading_separator_witness:
  "mdd_word ''/img/a.png '' = backslash # ''img/a.png'' \<and>
   mdd_word (backslash # ''img/a.png '') = backslash # ''img/a.png'' \<and>
   mdd_word ''img/a.png '' = backslash # ''img/a.png'' \<and>
   trim ''img/a.png '' = ''img/a.png''"
proof -
  have "trim ''img/a.png '' = ''img/a.png''"
    by code_simp
  then show ?thesis
    using mdd_word_leading_separator [of "''img/a.png ''"]
    by (simp add: is_space_def backslash_def toLowerCase_def lower_char_def)
qed

section \<open>Properties of the key table\<close>

lemma collect_same_keyinfo:
  "info \<in> set (collect_same vw dt h i) \<Longrightarrow> \<exists>at. info = keyinfo_at dt at"
proof (induction vw dt h i rule: collect_same.induct)
  case (1 vw dt h i)
  show ?case
  proof (cases "u32_at vw (2 * (i + 1)) \<noteq> Some h")
    case True
    then have "collect_same vw dt h i = [keyinfo_at dt (u32_at vw (2 * i + 1))]"
      by (subst collect_same.simps) simp
    then show ?thesis
      using "1.prems" by auto
  next
    case False
    then have "collect_same vw dt h i =
                 keyinfo_at dt (u32_at vw (2 * i + 1)) # collect_same vw dt h (i + 1)"
      by (subst collect_same.simps) simp
    then show ?thesis
      using "1.prems" "1.IH" [OF False] by auto
  qed
qed

lemma find_loop_keyinfo:
  "find_loop vw dt h lo hi = Some infos \<Longrightarrow> info \<in> set infos \<Longrightarrow> \<exists>at. info = keyinfo_at dt at"
proof (induction vw dt h lo hi rule: find_loop.induct)
  case (1 vw dt h lo hi)
  let ?i = "(lo + hi) div 2"
  let ?val = "u32_at vw (2 * ?i)"
  show ?case
  proof (cases "?val = Some h")
    case True
    then have "find_loop vw dt h lo hi = Some (collect_same vw dt h (first_same vw h ?i))"
      by (subst find_loop.simps) (simp add: Let_def)
    then show ?thesis
      using "1.prems" collect_same_keyinfo by auto
  next
    case False
    show ?thesis
    proof (cases "hi = lo \<or> ?i = hi \<or> ?i = lo")
      case True
      then have "find_loop vw dt h lo hi = None"
        using False by (subst find_loop.simps) (simp add: Let_def)
      then show ?thesis
        using "1.prems" by simp
    next
      case go: False
      show ?thesis
      proof (cases "case ?val of None \<Rightarrow> False | Some v \<Rightarrow> h < v")
        case True
        then have "find_loop vw dt h lo hi = find_loop vw dt h lo ?i"
          using False go by (subst find_loop.simps) (simp add: Let_def)
        then show ?thesis
          using "1.prems" "1.IH"(1) [OF refl refl False go True] by simp
      next
        case right: False
        then have "find_loop vw dt h lo hi = find_loop vw dt h ?i hi"
          using False go by (subst find_loop.simps) (simp add: Let_def)
        then show ?thesis
          using "1.prems" "1.IH"(2) [OF refl refl False go right] by simp
      qed
    qed
  qed
qed

text \<open>
  What \<open>find\<close> yields for an ordinal \<open>at\<close> of a table of \<open>N\<close> offsets: the offset
  \<open>data[at]\<close>, and the size \<open>data[at + 1] - data[at]\<close> when \<open>at < N - 2\<close>; the size is absent
  for the last two ordinals.
\<close>

lemma kt_find_keyinfo:
  assumes "kt_find x t key = Some infos" and "info \<in> set infos"
  shows "\<exists>at. info = keyinfo_at (kdata t) at \<and>
              (ki_size info = None) = (case at of None \<Rightarrow> True | Some at \<Rightarrow> int (length (kdata t)) - 2 \<le> at)"
proof -
  obtain at where "info = keyinfo_at (kdata t) at"
    using assms find_loop_keyinfo unfolding kt_find_def by blast
  then show ?thesis
    by (intro exI [of _ at]) (auto simp add: keyinfo_at_def split: option.splits)
qed

text \<open>
  C2 at a table of two entries, \<open>put(0, 'a')\<close> and \<open>put(10, 'a')\<close>: \<open>find('a')\<close> yields both,
  each without a size. The claim gives ordinal 0, which is not the last, the size 10.
\<close>

theorem kt_find_size_of_last_but_one:
  "kt_find x (kt_sort (kt_put x 10 ''a'' (kt_put x 0 ''a'' (kt_alloc 2 createKeyTable)))) ''a'' =
     Some [\<lparr>ki_offset = Some 0, ki_size = None\<rparr>, \<lparr>ki_offset = Some 10, ki_size = None\<rparr>]"
proof -
  let ?h = "hash x ''a''"
  have t: "kt_sort (kt_put x 10 ''a'' (kt_put x 0 ''a'' (kt_alloc 2 createKeyTable))) =
             \<lparr>ready = True, kpos = 4, korder = 2, view = [?h, 0, ?h, 1], kdata = [0, 10]\<rparr>"
    by (simp add: kt_sort_def kt_pack_def kt_put_def kt_alloc_def createKeyTable_def Let_def
        numeral_2_eq_2)
  have v: "u32_at [?h, 0, ?h, 1] 0 = Some (uint ?h)" "u32_at [?h, 0, ?h, 1] 2 = Some (uint ?h)"
    "u32_at [?h, 0, ?h, 1] 1 = Some 0" "u32_at [?h, 0, ?h, 1] 3 = Some 1"
    "u32_at [?h, 0, ?h, 1] (- 2) = None" "u32_at [?h, 0, ?h, 1] 4 = None"
    by (simp_all add: u32_at_def)
  have f: "first_same [?h, 0, ?h, 1] (uint ?h) 0 = 0"
    by (subst first_same.simps) (simp add: v)
  have c: "collect_same [?h, 0, ?h, 1] [0, 10] (uint ?h) 0 =
             [\<lparr>ki_offset = Some 0, ki_size = None\<rparr>, \<lparr>ki_offset = Some 10, ki_size = None\<rparr>]"
    by (subst collect_same.simps, subst collect_same.simps)
       (simp add: v keyinfo_at_def u32_at_def)
  show ?thesis
    unfolding t kt_find_def
    by (subst find_loop.simps) (simp add: Let_def v f c)
qed

section \<open>Properties of the resource lookup\<close>

text \<open>The exceptions of the scanner and of the scan for candidates are never messages.\<close>

lemma view_bytes_error: "view_bytes b p n = Inl e \<Longrightarrow> e = RangeError"
  by (simp add: view_bytes_def split: if_splits)

lemma getUint_error: "getUint n b p = Inl e \<Longrightarrow> e = RangeError"
  by (cases "view_bytes b p (int n)") (simp_all add: getUint_def view_bytes_error)

lemma conseq_error: "fst (conseq r n s) = Inl e \<Longrightarrow> r = Inl e"
  by (cases r) (simp_all add: conseq_def)

lemma search_nul_error: "search_nul n b off = Inl e \<Longrightarrow> e = RangeError"
proof (induction n b off rule: search_nul.induct)
  case (1 n b off)
  show ?case
  proof (cases "getUint n b off")
    case (Inl e')
    then show ?thesis
      using "1.prems" getUint_error by (subst (asm) search_nul.simps) auto
  next
    case (Inr v)
    then show ?thesis
      using "1.prems" "1.IH" [OF Inr] by (subst (asm) search_nul.simps) (auto split: if_splits)
  qed
qed

lemma readInt_error: "fst (readInt s) = Inl e \<Longrightarrow> e = RangeError"
  unfolding readInt_def by (drule conseq_error) (rule getUint_error)

lemma readNum_error: "fst (readNum a s) = Inl e \<Longrightarrow> e = RangeError"
  by (auto simp add: readNum_def dest: readInt_error split: if_splits)

lemma map_sum_error: "map_sum id f r = Inl e \<Longrightarrow> r = Inl e"
  by (cases r) simp_all

lemma readText_error: "fst (readText x a s) = Inl e \<Longrightarrow> e = RangeError"
proof (cases "searchTextLen a (buf s) (offset s)")
  case (Inl e')
  assume "fst (readText x a s) = Inl e"
  then have "e' = e"
    using Inl by (simp add: readText_def)
  then show ?thesis
    using Inl by (auto simp add: searchTextLen_def dest!: map_sum_error search_nul_error split: if_splits)
next
  case (Inr len)
  assume "fst (readText x a s) = Inl e"
  then show ?thesis
    using Inr by (auto simp add: readText_def dest!: conseq_error map_sum_error view_bytes_error)
qed

lemma readRaw_error: "fst (readRaw m s) = Inl e \<Longrightarrow> e = RangeError"
  by (cases m) (auto simp add: readRaw_def dest!: conseq_error view_bytes_error)

lemma readBlock_error:
  "fst (readBlock x a len expected decryptor s) = Inl e \<Longrightarrow> e = RangeError \<or> e = CodecError"
  by (auto simp add: readBlock_def Let_def dest: getUint_error view_bytes_error
      split: sum.splits if_splits option.splits prod.splits)

lemma read_keys_error: "read_keys x a todo i list scanner = Inl e \<Longrightarrow> e = RangeError"
proof (induction todo arbitrary: i list scanner)
  case 0
  then show ?case by simp
next
  case (Suc todo)
  obtain r1 s1 where n: "readNum a scanner = (r1, s1)"
    by (cases "readNum a scanner")
  show ?case
  proof (cases r1)
    case (Inl e')
    then show ?thesis
      using Suc.prems n readNum_error [of a scanner e'] by simp
  next
    case (Inr off)
    obtain r2 s2 where t: "readText x a s1 = (r2, s2)"
      by (cases "readText x a s1")
    show ?thesis
    proof (cases r2)
      case (Inl e')
      then show ?thesis
        using Suc.prems n Inr t readText_error [of x a s1 e'] by simp
    next
      case inr2: (Inr tx)
      then show ?thesis
        using Suc.prems n Inr t by (auto simp add: Let_def dest: Suc.IH split: if_splits)
    qed
  qed
qed

lemma loadKeys_error:
  assumes "fst (loadKeys x k d) = Inl e"
  shows "e = RangeError \<or> e = CodecError"
proof -
  let ?rb = "readBlock x (attrs_of d) (kdx_comp_size k) (Some (kdx_decomp_size k)) None
               (Scanner (sliceThen (file_of d) (kdx_offset k) (kdx_comp_size k)))"
  obtain r s where rb: "?rb = (r, s)"
    by (cases ?rb)
  show ?thesis
  proof (cases r)
    case (Inl e')
    then have "fst ?rb = Inl e'"
      using rb by simp
    then have "e' = RangeError \<or> e' = CodecError"
      by (rule readBlock_error)
    then show ?thesis
      using assms rb Inl by (auto simp add: loadKeys_def Let_def split: if_splits)
  next
    case (Inr scanner)
    then show ?thesis
      using assms rb
      by (auto simp add: loadKeys_def Let_def dest: read_keys_error split: if_splits sum.splits)
  qed
qed

lemma adaptKey_opt_error: "adaptKey_opt a key = Inl e \<Longrightarrow> e = TypeError"
  by (auto simp add: adaptKey_opt_def split: option.splits if_splits)

lemma shrink_error: "shrink a ks pos phrase = Inl e \<Longrightarrow> e = TypeError \<or> e = NaNCursor"
proof (induction a ks pos phrase rule: shrink.induct)
  case (1 a ks pos phrase)
  show ?case
  proof (cases "length ks > 1")
    case False
    with "1.prems" show ?thesis
      by (subst (asm) shrink.simps) (auto split: sum.splits dest: adaptKey_opt_error)
  next
    case long: True
    show ?thesis
    proof (cases "phrase < adaptKey a (key_text (ks ! (length ks div 2)))")
      case True
      with "1.prems" long have "shrink a (take (length ks div 2) ks) pos phrase = Inl e"
        by (subst (asm) shrink.simps) (simp add: Let_def object_is_primitive_def)
      with "1.IH"(1) [OF refl long refl refl True] show ?thesis
        by (simp add: object_is_primitive_def)
    next
      case False
      with "1.prems" long
      have "shrink a (drop (length ks div 2) ks) (Some (pos_or_0 pos + int (length ks div 2))) phrase = Inl e"
        by (subst (asm) shrink.simps) (simp add: Let_def object_is_primitive_def)
      with "1.IH"(2) [OF refl long refl refl False] show ?thesis
        by (simp add: object_is_primitive_def)
    qed
  qed
qed

lemma walk_back_error: "walk_back a list phrase idx = Inl e \<Longrightarrow> e = TypeError"
proof (induction a list phrase idx rule: walk_back.induct)
  case (1 a list phrase idx)
  from "1.prems" show ?case
    apply (subst (asm) walk_back.simps)
    apply (auto split: if_splits sum.splits dest: adaptKey_opt_error "1.IH")
    done
qed

lemma loadKeys_no_message: "loadKeys x k d = (Inl e, d') \<Longrightarrow> e \<noteq> Message m"
  using loadKeys_error [of x k d e] by auto

lemma shrink_no_message: "shrink a ks pos phrase = Inl e \<Longrightarrow> e \<noteq> Message m"
  using shrink_error [of a ks pos phrase e] by auto

lemma walk_back_no_message: "walk_back a list phrase idx = Inl e \<Longrightarrow> e \<noteq> Message m"
  using walk_back_error [of a list phrase idx e] by auto

lemma findCandidates_no_message:
  "fst (findCandidates x word d) \<noteq> Failed (Message m) \<and> fst (findCandidates x word d) \<noteq> Threw (Message m)"
  by (auto simp add: findCandidates_def Let_def
      dest: loadKeys_no_message shrink_no_message walk_back_no_message
      split: option.splits prod.splits sum.splits if_splits)

lemma read_object_no_message: "read_object x a input blk keyinfo \<noteq> Inl (Message m)"
proof
  assume r: "read_object x a input blk keyinfo = Inl (Message m)"
  show False
  proof (cases "readBlock x a (comp_size blk) None None (Scanner input)")
    case (Pair r1 s1)
    show ?thesis
    proof (cases r1)
      case (Inl e)
      with Pair r have "fst (readBlock x a (comp_size blk) None None (Scanner input)) = Inl (Message m)"
        by (simp add: read_object_def)
      from readBlock_error [OF this] show ?thesis by simp
    next
      case (Inr scanner)
      with Pair r obtain off where
        "fst (readRaw (ki_size keyinfo) (forward (off - decomp_offset blk) scanner)) = Inl (Message m)"
        by (auto simp add: read_object_def split: option.splits)
      from readRaw_error [OF this] show ?thesis by simp
    qed
  qed
qed

lemma findResource_no_message:
  "findResource x d k \<noteq> Rejected (Message m) \<and> findResource x d k \<noteq> Thrown (Message m)"
  using read_object_no_message [of x]
  by (auto simp add: findResource_def findResource_then_def findWord_block_def
      split: option.splits sum.splits)

lemma collect_same_not_Nil: "collect_same vw dt hashcode i \<noteq> []"
  by (subst collect_same.simps) simp

lemma find_loop_not_Nil: "find_loop vw dt hashcode lo hi \<noteq> Some []"
proof (induction vw dt hashcode lo hi rule: find_loop.induct)
  case (1 vw dt hashcode lo hi)
  show ?case
    apply (subst find_loop.simps)
    using "1.IH" apply (auto simp add: Let_def collect_same_not_Nil)
    done
qed

lemma kt_find_not_Nil: "kt_find x t key \<noteq> Some []"
  by (simp add: kt_find_def find_loop_not_Nil)

lemma LOOKUP_mdd_express:
  "isReady (KEY_TABLE d) \<Longrightarrow>
   LOOKUP_mdd x phrase d =
     (case kt_find x (KEY_TABLE d) (mdd_word phrase) of
        None \<Rightarrow> (Thrown TypeError, d)
      | Some infos \<Rightarrow> (findResource x d (Some (hd infos)), d))"
  using kt_find_not_Nil [of x "KEY_TABLE d" "mdd_word phrase"]
  by (auto simp add: LOOKUP_mdd_def Let_def split: option.splits list.splits)

lemma unthrown_no_message: "r \<noteq> Rejected (Message m) \<Longrightarrow> r \<noteq> Thrown (Message m) \<Longrightarrow>
  unthrown r \<noteq> Rejected (Message m)"
  by (cases r) (simp_all add: unthrown_def)

lemma LOOKUP_mdd_no_message: "fst (LOOKUP_mdd x phrase d) \<noteq> Rejected (Message m)"
proof (cases "isReady (KEY_TABLE d)")
  case True
  then show ?thesis
    using findResource_no_message [of x d _ m]
    by (simp add: LOOKUP_mdd_express split: option.splits)
next
  case False
  show ?thesis
  proof (cases "findCandidates x (mdd_word phrase) d")
    case (Pair r d')
    with findCandidates_no_message [of x "mdd_word phrase" d m]
    have "r \<noteq> Failed (Message m)"
      by simp
    with Pair False show ?thesis
      using unthrown_no_message [OF conjunct1 [OF findResource_no_message] conjunct2 [OF findResource_no_message]]
      by (cases r) (simp_all add: LOOKUP_mdd_def Let_def)
  qed
qed

text \<open>The lookups of \<open>b.png\<close> and of \<open>/A.png\<close> in \<open>resource_dict\<close>, step by step.\<close>

lemma char_of_eq_iff: "(char_of (n :: nat) = c) = (n mod 256 = of_char c)"
  by (metis char_of_char of_char_of)

lemma ascii_text_Cons [simp]: "ascii_text [] = []" "ascii_text (b # bs) = char_of (unat b) # ascii_text bs"
  by (simp_all add: ascii_text_def)

lemma resource_key_block: "sliceThen (file_of resource_dict) 0 23 =
   [0, 0, 0, 0, 0, 0, 0, 0, 0, 0, 0, 0, 0, 0, 0, 0, 92, 97, 46, 112, 110, 103, 0]"
  by (simp add: resource_dict_def sliceThen_def js_slice_def)

lemma resource_readBlock: "readBlock x utf8_v2 23 e None (Scanner [0, 0, 0, 0, 0, 0, 0, 0, 0, 0, 0, 0, 0, 0, 0, 0, 92, 97, 46, 112, 110, 103, 0])
   = (Inr \<lparr>buf = [0, 0, 0, 0, 0, 0, 0, 0, 0, 0, 0, 0, 0, 0, 0, 0, 92, 97, 46, 112, 110, 103, 0], offset = 8\<rparr>,
      \<lparr>buf = [0, 0, 0, 0, 0, 0, 0, 0, 0, 0, 0, 0, 0, 0, 0, 0, 92, 97, 46, 112, 110, 103, 0], offset = 8\<rparr>)"
  by (simp add: readBlock_def getUint_def view_bytes_def be_uint_def Scanner_def forward_def
      utf8_v2_simps Let_def)

lemma resource_readNum: "readNum utf8_v2 \<lparr>buf = [0, 0, 0, 0, 0, 0, 0, 0, 0, 0, 0, 0, 0, 0, 0, 0, 92, 97, 46, 112, 110, 103, 0], offset = 8\<rparr>
   = (Inr 0, \<lparr>buf = [0, 0, 0, 0, 0, 0, 0, 0, 0, 0, 0, 0, 0, 0, 0, 0, 92, 97, 46, 112, 110, 103, 0], offset = 16\<rparr>)"
  by (simp add: readNum_def readInt_def conseq_def getUint_def view_bytes_def be_uint_def forward_def
      utf8_v2_simps Let_def)

lemma resource_readText: "readText (plain_ext h) utf8_v2 \<lparr>buf = [0, 0, 0, 0, 0, 0, 0, 0, 0, 0, 0, 0, 0, 0, 0, 0, 92, 97, 46, 112, 110, 103, 0], offset = 16\<rparr>
   = (Inr (backslash # ''a.png''), \<lparr>buf = [0, 0, 0, 0, 0, 0, 0, 0, 0, 0, 0, 0, 0, 0, 0, 0, 92, 97, 46, 112, 110, 103, 0], offset = 23\<rparr>)"
  by (simp add: readText_def searchTextLen_def search_nul.simps conseq_def getUint_def view_bytes_def be_uint_def forward_def
      utf8_v2_simps Let_def decoder_def plain_ext_def char_of_eq_iff backslash_def)

lemma resource_loadKeys: "loadKeys (plain_ext h) (hd (KEY_INDEX resource_dict)) resource_dict =
   (Inr [\<lparr>key_text = backslash # ''a.png'', key_offset = 0, key_size = None\<rparr>],
    resource_dict\<lparr>last_keys := Some ([\<lparr>key_text = backslash # ''a.png'', key_offset = 0, key_size = None\<rparr>], backslash # ''a.png'')\<rparr>)"
  unfolding loadKeys_def
  apply (simp add: resource_key_block)
  apply (simp add: resource_dict_def resource_key_block[unfolded resource_dict_def, simplified] resource_readBlock resource_readNum resource_readText)
  done

lemma resource_words: "mdd_word ''b.png'' = backslash # ''b.png''" "mdd_word ''/A.png'' = backslash # ''a.png''"
  by code_simp+

lemma resource_adaptKey: "adaptKey utf8_v2 (backslash # ''b.png'') = backslash # ''b.png''"
  "adaptKey utf8_v2 (backslash # ''a.png'') = backslash # ''a.png''"
  by code_simp+

lemma resource_reduce: "reduce utf8_v2 (KEY_INDEX resource_dict) p = Some (hd (KEY_INDEX resource_dict))"
  by (subst reduce.simps) (simp add: resource_dict_def nth_opt_def)

lemma resource_fields: "attrs_of resource_dict_loaded = utf8_v2" "attrs_of resource_dict = utf8_v2" "isReady (KEY_TABLE resource_dict_loaded) = False"
  "isReady (KEY_TABLE resource_dict) = False" "KEY_INDEX resource_dict_loaded = KEY_INDEX resource_dict"
  "kdx_index (hd (KEY_INDEX resource_dict)) = 0" "length (KEY_INDEX resource_dict) = 1"
  "kdx_first_word (hd (KEY_INDEX resource_dict)) = backslash # ''a.png''"
  "last_keys resource_dict_loaded = Some ([\<lparr>key_text = backslash # ''a.png'', key_offset = 0, key_size = None\<rparr>], backslash # ''a.png'')"
  "file_of resource_dict_loaded = file_of resource_dict" "RECORD_BLOCK_TABLE resource_dict_loaded = RECORD_BLOCK_TABLE resource_dict"
  by (simp_all add: resource_dict_loaded_def resource_dict_def isReady_def createKeyTable_def)

lemma resource_shrink: "shrink utf8_v2 [\<lparr>key_text = backslash # ''a.png'', key_offset = 0, key_size = None\<rparr>] None (backslash # ''b.png'') = Inr 1"
  "shrink utf8_v2 [\<lparr>key_text = backslash # ''a.png'', key_offset = 0, key_size = None\<rparr>] None (backslash # ''a.png'') = Inr 0"
  by (subst shrink.simps, simp add: adaptKey_opt_def utf8_v2_keys nth_opt_def resource_adaptKey pos_or_0_def)+

lemma resource_walk_back: "walk_back utf8_v2 [\<lparr>key_text = backslash # ''a.png'', key_offset = 0, key_size = None\<rparr>] (backslash # ''b.png'') 1 = Inr 1"
  "walk_back utf8_v2 ks p 0 = Inr 0"
  by (subst walk_back.simps, simp add: adaptKey_opt_def utf8_v2_keys nth_opt_def resource_adaptKey)+

lemma resource_loadKeys_again: "loadKeys x (hd (KEY_INDEX resource_dict)) resource_dict_loaded =
   (Inr [\<lparr>key_text = backslash # ''a.png'', key_offset = 0, key_size = None\<rparr>], resource_dict_loaded)"
  by (simp add: loadKeys_def resource_fields)

lemma resource_candidates_b: "findCandidates (plain_ext h) (backslash # ''b.png'') resource_dict = (Settled [], resource_dict_loaded)"
  "findCandidates (plain_ext h) (backslash # ''b.png'') resource_dict_loaded = (Settled [], resource_dict_loaded)"
  unfolding findCandidates_def
  by (simp_all add: Let_def resource_adaptKey resource_reduce resource_loadKeys resource_loadKeys_again resource_fields resource_dict_loaded_def [symmetric] resource_shrink resource_walk_back js_slice_def MAX_CANDIDATES_def nth_opt_def)

lemma resource_candidates_a: "findCandidates (plain_ext h) (backslash # ''a.png'') resource_dict_loaded =
    (Settled [\<lparr>key_text = backslash # ''a.png'', key_offset = 0, key_size = None\<rparr>], resource_dict_loaded)"
  unfolding findCandidates_def
  by (simp add: Let_def resource_adaptKey resource_reduce resource_loadKeys_again resource_fields resource_shrink resource_walk_back js_slice_def MAX_CANDIDATES_def nth_opt_def)

lemma resource_lookup_b: "LOOKUP_mdd (plain_ext h) ''b.png'' resource_dict = (Rejected TypeError, resource_dict_loaded)"
  by (simp add: LOOKUP_mdd_def resource_words resource_fields resource_candidates_b nth_opt_def findResource_def unthrown_def)

lemma resource_toLowerCase: "toLowerCase (backslash # ''a.png'') = backslash # ''a.png''"
  by code_simp

lemma resource_rb_find: "rb_find (RECORD_BLOCK_TABLE resource_dict) 0 =
   Some \<lparr>block_no = 0, comp_offset = 23, comp_size = 11, decomp_offset = 0, decomp_size = 3\<rparr>"
  unfolding resource_dict_def by code_simp

lemma resource_read_object: "read_object x utf8_v2 (sliceThen (file_of resource_dict) 23 11)
    \<lparr>block_no = 0, comp_offset = 23, comp_size = 11, decomp_offset = 0, decomp_size = 3\<rparr>
    \<lparr>ki_offset = Some 0, ki_size = None\<rparr> = Inr [1, 2, 3]"
  by (simp add: read_object_def resource_dict_def sliceThen_def js_slice_def readBlock_def getUint_def
      view_bytes_def be_uint_def Scanner_def forward_def utf8_v2_simps Let_def readRaw_def conseq_def)

lemma resource_lookup_a: "LOOKUP_mdd (plain_ext h) ''/A.png'' resource_dict_loaded = (Resolved (Bytes [1, 2, 3]), resource_dict_loaded)"
  by (simp add: LOOKUP_mdd_def resource_words resource_fields resource_candidates_a nth_opt_def findResource_def unthrown_def resource_toLowerCase keyinfo_of_def
     findWord_block_def resource_rb_find findResource_then_def resource_read_object)

text \<open>
  C9 at a resource that is not in the dictionary. In scan mode (the mode \<open>parse_mdict\<close>
  leaves the dictionary in) the lookup of \<open>b.png\<close> in \<open>resource_dict\<close> is rejected, with
  the \<open>TypeError\<close> of \<open>findResource(undefined)\<close> as its reason and not with a message that
  the resource was not found; the dictionary stays usable, the next lookup of \<open>/A.png\<close>
  resolves to the record. In express mode the lookup of a key that \<open>find\<close> does not have
  throws that \<open>TypeError\<close> out of \<open>LOOKUP.mdd\<close> (\<open>KEY_TABLE.find(word)[0]\<close> on
  \<open>undefined\<close>), where no promise catches it. In neither mode, for no dictionary and no
  phrase, is a lookup rejected with a message: the branch
  \<open>reject("*RESOURCE NOT FOUND* " + phrase)\<close> is never taken.
\<close>

theorem LOOKUP_mdd_missing_resource:
  "LOOKUP_mdd (plain_ext h) ''b.png'' resource_dict = (Rejected TypeError, resource_dict_loaded) \<and>
   LOOKUP_mdd (plain_ext h) ''/A.png'' resource_dict_loaded =
     (Resolved (Bytes [1, 2, 3]), resource_dict_loaded) \<and>
   LOOKUP_mdd x phrase (d\<lparr>KEY_TABLE := t\<lparr>ready := True\<rparr>\<rparr>) =
     (case kt_find x (t\<lparr>ready := True\<rparr>) (mdd_word phrase) of
        None \<Rightarrow> (Thrown TypeError, d\<lparr>KEY_TABLE := t\<lparr>ready := True\<rparr>\<rparr>)
      | Some infos \<Rightarrow>
          (findResource x (d\<lparr>KEY_TABLE := t\<lparr>ready := True\<rparr>\<rparr>) (Some (hd infos)),
           d\<lparr>KEY_TABLE := t\<lparr>ready := True\<rparr>\<rparr>)) \<and>
   fst (LOOKUP_mdd x phrase d) \<noteq> Rejected (Message m)"
proof -
  have "isReady (KEY_TABLE (d\<lparr>KEY_TABLE := t\<lparr>ready := True\<rparr>\<rparr>))"
    by (simp add: isReady_def)
  from LOOKUP_mdd_express [OF this] show ?thesis
    by (simp add: resource_lookup_b resource_lookup_a LOOKUP_mdd_no_message)
qed

section \<open>Properties of the links\<close>

lemma LOOKUP_mdx_single:
  assumes sel: "selection x d phrase off = Some ([k], d')"
    and blk: "findWord_block d' k = Inr blk"
    and defn: "read_definition x (attrs_of d')
                 (sliceThen (file_of d') (comp_offset blk) (comp_size blk)) blk k = Inr defn"
  shows "LOOKUP_mdx x (Suc n) phrase off d =
           (if substring defn 0 8 = ''@@@LINK=''
            then (case LOOKUP_mdx x n (substring_from defn 8) None d' of
                    None \<Rightarrow> None
                  | Some (r, d'') \<Rightarrow> Some (harvest [unthrown r], d''))
            else Some (Resolved (Items [Text defn]), d'))"
proof -
  let ?lookup = "\<lambda>p. LOOKUP_mdx x n p None"
  have m: "map_findWord x ?lookup [k] d' =
             (if substring defn 0 8 = ''@@@LINK=''
              then (case ?lookup (substring_from defn 8) d' of
                      None \<Rightarrow> None
                    | Some (r, d'') \<Rightarrow> Some (Inr [unthrown r], d''))
              else Some (Inr [Resolved (Text defn)], d'))"
    using blk defn
    by (simp add: map_findWord_def findWord_then_def followLink_def unthrown_def
        split: option.splits)
  show ?thesis
  proof (cases "isReady (KEY_TABLE d)")
    case True
    with sel have "express_infos x d (toLowerCase (trim phrase)) off = Some [k]" "d' = d"
      by (auto simp add: selection_def Let_def)
    with True m show ?thesis
      by (simp add: mdx_body_def Let_def harvest_def split: option.splits)
  next
    case False
    with sel obtain candidates where
      "findCandidates x (toLowerCase (trim phrase)) d = (Settled candidates, d')"
      "scan_infos candidates (toLowerCase (trim phrase)) off = [k]"
      by (auto simp add: selection_def Let_def split: prod.splits promised.splits)
    with False m show ?thesis
      by (simp add: mdx_body_def Let_def harvest_def split: option.splits)
  qed
qed

text \<open>The lookup of \<open>a\<close> in \<open>loop_dict\<close>, step by step.\<close>

lemma loop_fields:
  "attrs_of loop_dict_loaded = utf8_v2" "attrs_of loop_dict = utf8_v2"
  "isReady (KEY_TABLE loop_dict_loaded) = False" "isReady (KEY_TABLE loop_dict) = False"
  "KEY_INDEX loop_dict_loaded = KEY_INDEX loop_dict"
  "kdx_index (hd (KEY_INDEX loop_dict)) = 0" "length (KEY_INDEX loop_dict) = 1"
  "kdx_first_word (hd (KEY_INDEX loop_dict)) = ''a''"
  "last_keys loop_dict_loaded = Some ([\<lparr>key_text = ''a'', key_offset = 0, key_size = None\<rparr>], ''a'')"
  "file_of loop_dict_loaded = file_of loop_dict"
  "RECORD_BLOCK_TABLE loop_dict_loaded = RECORD_BLOCK_TABLE loop_dict"
  by (simp_all add: loop_dict_loaded_def loop_dict_def isReady_def createKeyTable_def)

lemma loop_words: "toLowerCase (trim ''a'') = ''a''" "adaptKey utf8_v2 ''a'' = ''a''" "toLowerCase ''a'' = ''a''"
  by code_simp+

lemma loop_reduce: "reduce utf8_v2 (KEY_INDEX loop_dict) p = Some (hd (KEY_INDEX loop_dict))"
  by (subst reduce.simps) (simp add: loop_dict_def nth_opt_def)

lemma loop_loadKeys:
  "loadKeys (plain_ext h) (hd (KEY_INDEX loop_dict)) loop_dict =
     (Inr [\<lparr>key_text = ''a'', key_offset = 0, key_size = None\<rparr>], loop_dict_loaded)"
  "loadKeys x (hd (KEY_INDEX loop_dict)) loop_dict_loaded =
     (Inr [\<lparr>key_text = ''a'', key_offset = 0, key_size = None\<rparr>], loop_dict_loaded)"
proof -
  show "loadKeys x (hd (KEY_INDEX loop_dict)) loop_dict_loaded =
     (Inr [\<lparr>key_text = ''a'', key_offset = 0, key_size = None\<rparr>], loop_dict_loaded)"
    by (simp add: loadKeys_def loop_fields)
  have "readBlock x utf8_v2 18 e None (Scanner [0, 0, 0, 0, 0, 0, 0, 0, 0, 0, 0, 0, 0, 0, 0, 0, 97, 0]) =
      (Inr \<lparr>buf = [0, 0, 0, 0, 0, 0, 0, 0, 0, 0, 0, 0, 0, 0, 0, 0, 97, 0], offset = 8\<rparr>,
       \<lparr>buf = [0, 0, 0, 0, 0, 0, 0, 0, 0, 0, 0, 0, 0, 0, 0, 0, 97, 0], offset = 8\<rparr>)" for x e
    by (simp add: readBlock_def getUint_def view_bytes_def be_uint_def Scanner_def forward_def
        utf8_v2_simps Let_def)
  then show "loadKeys (plain_ext h) (hd (KEY_INDEX loop_dict)) loop_dict =
     (Inr [\<lparr>key_text = ''a'', key_offset = 0, key_size = None\<rparr>], loop_dict_loaded)"
    by (simp add: loadKeys_def loop_dict_loaded_def)
       (simp add: loop_dict_def sliceThen_def js_slice_def readNum_def readInt_def readText_def
          searchTextLen_def search_nul.simps conseq_def getUint_def view_bytes_def be_uint_def
          forward_def utf8_v2_simps Let_def decoder_def plain_ext_def char_of_eq_iff)
qed

lemma loop_shrink:
  "shrink utf8_v2 [\<lparr>key_text = ''a'', key_offset = 0, key_size = None\<rparr>] None ''a'' = Inr 0"
  by (subst shrink.simps) (simp add: adaptKey_opt_def utf8_v2_keys nth_opt_def loop_words pos_or_0_def)

lemma loop_walk_back: "walk_back utf8_v2 ks p 0 = Inr 0"
  by (subst walk_back.simps) simp

lemma loop_candidates:
  "findCandidates (plain_ext h) ''a'' loop_dict =
     (Settled [\<lparr>key_text = ''a'', key_offset = 0, key_size = None\<rparr>], loop_dict_loaded)"
  "findCandidates (plain_ext h) ''a'' loop_dict_loaded =
     (Settled [\<lparr>key_text = ''a'', key_offset = 0, key_size = None\<rparr>], loop_dict_loaded)"
  unfolding findCandidates_def
  by (simp_all add: Let_def loop_words loop_reduce loop_loadKeys loop_fields loop_shrink
      loop_walk_back js_slice_def MAX_CANDIDATES_def nth_opt_def)

lemma loop_selection:
  "selection (plain_ext h) loop_dict ''a'' None =
     Some ([\<lparr>ki_offset = Some 0, ki_size = None\<rparr>], loop_dict_loaded)"
  "selection (plain_ext h) loop_dict_loaded ''a'' None =
     Some ([\<lparr>ki_offset = Some 0, ki_size = None\<rparr>], loop_dict_loaded)"
  by (simp_all add: selection_def loop_words loop_fields loop_candidates scan_infos_def keyinfo_of_def)

lemma loop_block:
  "findWord_block loop_dict_loaded \<lparr>ki_offset = Some 0, ki_size = None\<rparr> =
     Inr \<lparr>block_no = 0, comp_offset = 18, comp_size = 18, decomp_offset = 0, decomp_size = 10\<rparr>"
proof -
  have "rb_find (RECORD_BLOCK_TABLE loop_dict) 0 =
     Some \<lparr>block_no = 0, comp_offset = 18, comp_size = 18, decomp_offset = 0, decomp_size = 10\<rparr>"
    unfolding loop_dict_def by code_simp
  then show ?thesis
    by (simp add: findWord_block_def loop_fields)
qed

lemma loop_definition:
  "read_definition (plain_ext h) (attrs_of loop_dict_loaded)
     (sliceThen (file_of loop_dict_loaded) 18 18)
     \<lparr>block_no = 0, comp_offset = 18, comp_size = 18, decomp_offset = 0, decomp_size = 10\<rparr>
     \<lparr>ki_offset = Some 0, ki_size = None\<rparr> = Inr ''@@@LINK=a''"
  by (simp add: loop_fields read_definition_def loop_dict_def sliceThen_def js_slice_def readBlock_def
      Scanner_def readText_def searchTextLen_def search_nul.simps conseq_def
      getUint_def view_bytes_def be_uint_def forward_def utf8_v2_simps Let_def decoder_def
      plain_ext_def char_of_eq_iff)

lemma loop_step:
  "LOOKUP_mdx (plain_ext h) (Suc n) ''a'' None loop_dict =
     (case LOOKUP_mdx (plain_ext h) n ''a'' None loop_dict_loaded of
        None \<Rightarrow> None
      | Some (r, d'') \<Rightarrow> Some (harvest [unthrown r], d''))"
  "LOOKUP_mdx (plain_ext h) (Suc n) ''a'' None loop_dict_loaded =
     (case LOOKUP_mdx (plain_ext h) n ''a'' None loop_dict_loaded of
        None \<Rightarrow> None
      | Some (r, d'') \<Rightarrow> Some (harvest [unthrown r], d''))"
  using LOOKUP_mdx_single [where n = n and defn = "''@@@LINK=a''", OF loop_selection(1) loop_block, of h]
    LOOKUP_mdx_single [where n = n and defn = "''@@@LINK=a''", OF loop_selection(2) loop_block, of h]
  by (simp_all add: loop_definition substring_def substring_from_def)

lemma loop_never_loaded: "LOOKUP_mdx (plain_ext h) n ''a'' None loop_dict_loaded = None"
  by (induction n) (simp_all only: LOOKUP_mdx.simps(1) loop_step(2) option.case)

lemma loop_never: "LOOKUP_mdx (plain_ext h) n ''a'' None loop_dict = None"
  by (cases n) (simp_all only: LOOKUP_mdx.simps(1) loop_step(1) loop_never_loaded option.case)

text \<open>
  A lookup that has settled within some depth settles with the same result within every
  greater depth: \<open>None\<close> at every depth is a promise that never settles.
\<close>

lemma settle_all_mono:
  assumes "\<And>k d r. k \<in> set ks \<Longrightarrow> f k d = Some r \<Longrightarrow> g k d = Some r"
  shows "settle_all f ks d = Some r \<Longrightarrow> settle_all g ks d = Some r"
  using assms
proof (induction ks arbitrary: d r)
  case Nil
  then show ?case by simp
next
  case (Cons k ks)
  from Cons.prems(1) obtain r1 d1 rs d2 where
    f: "f k d = Some (r1, d1)" and rest: "settle_all f ks d1 = Some (rs, d2)" and r: "r = (r1 # rs, d2)"
    by (auto split: option.splits)
  from f have "g k d = Some (r1, d1)"
    by (rule Cons.prems(2) [rotated]) simp
  moreover from rest have "settle_all g ks d1 = Some (rs, d2)"
    by (rule Cons.IH) (rule Cons.prems(2), simp_all)
  ultimately show ?case
    using r by simp
qed

lemma mdx_body_mono:
  assumes "\<And>p d r. f p d = Some r \<Longrightarrow> g p d = Some r"
    and "mdx_body x f phrase off d = Some r"
  shows "mdx_body x g phrase off d = Some r"
proof -
  have fw: "findWord_then x f bk d = Some r \<Longrightarrow> findWord_then x g bk d = Some r" for bk d r
    by (auto simp add: findWord_then_def followLink_def dest: assms(1) split: sum.splits if_splits)
  have m: "map_findWord x f infos d = Some r \<Longrightarrow> map_findWord x g infos d = Some r" for infos d r
    using settle_all_mono [of _ "findWord_then x f" "findWord_then x g", OF fw]
    by (auto simp add: map_findWord_def split: sum.splits)
  from assms(2) show ?thesis
    by (auto simp add: mdx_body_def Let_def dest: m
        split: option.splits prod.splits sum.splits promised.splits if_splits)
qed

lemma LOOKUP_mdx_mono:
  "LOOKUP_mdx x n phrase off d = Some r \<Longrightarrow> LOOKUP_mdx x (n + m) phrase off d = Some r"
proof (induction n arbitrary: phrase off d r)
  case 0
  then show ?case by simp
next
  case (Suc n)
  from Suc.prems have "mdx_body x (\<lambda>p. LOOKUP_mdx x n p None) phrase off d = Some r"
    by simp
  then have "mdx_body x (\<lambda>p. LOOKUP_mdx x (n + m) p None) phrase off d = Some r"
    by (rule mdx_body_mono [rotated]) (rule Suc.IH)
  then show ?case
    by simp
qed

text \<open>
  C4, as stated, fails: in \<open>loop_dict\<close>, where the record of \<open>a\<close> is \<open>@@@LINK=a\<close>, the
  lookup of \<open>a\<close> has not settled within any depth. No depth is counted and no error ends
  the chain.
\<close>

theorem followLink_cycle_counterexample:
  "\<forall>n. LOOKUP_mdx (plain_ext (\<lambda>s. 0)) n ''a'' None loop_dict = None"
  by (simp add: loop_never)

lemma link_step_lookup:
  assumes "link_step x d phrase = Some (q, d')"
  shows "LOOKUP_mdx x (Suc n) phrase None d =
           (case LOOKUP_mdx x n q None d' of
              None \<Rightarrow> None
            | Some (r, d'') \<Rightarrow> Some (harvest [unthrown r], d''))"
proof -
  from assms obtain k where sel: "selection x d phrase None = Some ([k], d')"
    by (auto simp add: link_step_def split: option.splits list.splits sum.splits if_splits)
  with assms obtain blk where blk: "findWord_block d' k = Inr blk"
    by (auto simp add: link_step_def split: sum.splits)
  with assms sel obtain defn where
    defn: "read_definition x (attrs_of d')
             (sliceThen (file_of d') (comp_offset blk) (comp_size blk)) blk k = Inr defn"
    by (auto simp add: link_step_def split: sum.splits)
  with assms sel blk have "substring defn 0 8 = ''@@@LINK=''" "q = substring_from defn 8"
    by (auto simp add: link_step_def split: if_splits)
  with LOOKUP_mdx_single [OF sel blk defn, of n] show ?thesis
    by simp
qed

lemma link_chain_add:
  "link_chain x (m + m') phrase d =
     (case link_chain x m phrase d of None \<Rightarrow> None | Some (q, d') \<Rightarrow> link_chain x m' q d')"
  by (induction m arbitrary: phrase d) (auto split: option.splits)

lemma link_chain_never:
  "(\<And>m. link_chain x m phrase d \<noteq> None) \<Longrightarrow> LOOKUP_mdx x n phrase None d = None"
proof (induction n arbitrary: phrase d)
  case 0
  show ?case by simp
next
  case (Suc n)
  from Suc.prems [of 1] obtain q d' where step: "link_step x d phrase = Some (q, d')"
    by (auto split: option.splits)
  have "link_chain x m q d' \<noteq> None" for m
    using Suc.prems [of "Suc m"] step by simp
  then have "LOOKUP_mdx x n q None d' = None"
    by (rule Suc.IH)
  with link_step_lookup [OF step, of n] show ?case
    by simp
qed

lemma link_chain_cycle:
  assumes "0 < k" and "link_chain x k q d = Some (q, d)"
  shows "link_chain x m q d \<noteq> None"
proof (induction m rule: less_induct)
  case (less m)
  show ?case
  proof (cases "m < k")
    case True
    then have "k = m + (k - m)"
      by simp
    with assms(2) link_chain_add [of x m "k - m" q d] show ?thesis
      by (metis option.simps(3) option.simps(4))
  next
    case False
    then have m: "m = k + (m - k)" "m - k < m"
      using assms(1) by simp_all
    from less.IH [OF m(2)] link_chain_add [of x k "m - k" q d] assms(2) m(1) show ?thesis
      by simp
  qed
qed

text \<open>
  C4, amended. When following the links from a phrase, each the one record that a lookup
  selects, leads after \<open>j\<close> links to a keyword from which \<open>k > 0\<close> further links lead back to
  it, the dictionary being in the same state, the lookup of the phrase has not settled
  within any depth \<open>n\<close>: no depth is counted, no error ends the chain, and the promise
  never settles.
\<close>

theorem followLink_cycle_never_settles:
  assumes "link_chain x j phrase d = Some (q, d1)" and "0 < k"
    and "link_chain x k q d1 = Some (q, d1)"
  shows "LOOKUP_mdx x n phrase None d = None"
proof (rule link_chain_never)
  fix m
  show "link_chain x m phrase d \<noteq> None"
  proof (cases "m < j")
    case True
    then have "j = m + (j - m)"
      by simp
    with assms(1) link_chain_add [of x m "j - m" phrase d] show ?thesis
      by (metis option.simps(3) option.simps(4))
  next
    case False
    then have "m = j + (m - j)"
      by simp
    with link_chain_add [of x j "m - j" phrase d] assms(1)
      link_chain_cycle [OF assms(2,3), of "m - j"] show ?thesis
      by simp
  qed
qed

theorem followLink_cycle_never_settles_witness:
  "link_chain (plain_ext (\<lambda>s. 0)) 1 ''a'' loop_dict = Some (''a'', loop_dict_loaded) \<and>
   link_chain (plain_ext (\<lambda>s. 0)) 1 ''a'' loop_dict_loaded = Some (''a'', loop_dict_loaded) \<and>
   LOOKUP_mdx (plain_ext (\<lambda>s. 0)) 9 ''a'' None loop_dict = None"
proof -
  have "link_step (plain_ext h) loop_dict ''a'' = Some (''a'', loop_dict_loaded)"
    "link_step (plain_ext h) loop_dict_loaded ''a'' = Some (''a'', loop_dict_loaded)" for h
    by (simp_all add: link_step_def loop_selection loop_block loop_definition substring_def
        substring_from_def)
  then have c: "link_chain (plain_ext (\<lambda>s. 0)) 1 ''a'' loop_dict = Some (''a'', loop_dict_loaded)"
    "link_chain (plain_ext (\<lambda>s. 0)) 1 ''a'' loop_dict_loaded = Some (''a'', loop_dict_loaded)"
    by simp_all
  show ?thesis
    using followLink_cycle_never_settles [OF c(1) _ c(2), of 9] c
    by simp
qed

section \<open>Properties of the two lookup modes\<close>

text \<open>Lower-casing twice is lower-casing once.\<close>

lemma lower_char_idem: "lower_char (lower_char c) = lower_char c"
proof (cases "(65 \<le> (of_char c :: nat) \<and> (of_char c :: nat) \<le> 90) \<or>
              (192 \<le> (of_char c :: nat) \<and> (of_char c :: nat) \<le> 222 \<and> (of_char c :: nat) \<noteq> 215)")
  case True
  then have l: "lower_char c = char_of ((of_char c :: nat) + 32)"
    by (simp add: lower_char_def Let_def)
  have "(of_char (lower_char c) :: nat) = ((of_char c :: nat) + 32) mod 256"
    unfolding l by simp
  with True have "(of_char (lower_char c) :: nat) = (of_char c :: nat) + 32"
    by auto
  with True show ?thesis
    by (subst (1) lower_char_def) (auto simp add: Let_def)
next
  case False
  then have "lower_char c = c"
    by (auto simp add: lower_char_def Let_def)
  then show ?thesis
    by simp
qed

lemma toLowerCase_idem: "toLowerCase (toLowerCase s) = toLowerCase s"
  by (simp add: toLowerCase_def lower_char_idem)

lemma adaptKey_plain:
  "\<not> isTrue (KeyCaseSensitive a) \<Longrightarrow> \<not> isTrue (StripKey a) \<Longrightarrow> adaptKey a key = toLowerCase key"
  by (simp add: adaptKey_def)

lemma adaptKey_opt_plain:
  "\<not> isTrue (KeyCaseSensitive a) \<Longrightarrow> \<not> isTrue (StripKey a) \<Longrightarrow>
   adaptKey_opt a key = (case key of Some k \<Rightarrow> Inr (Some (toLowerCase k)) | None \<Rightarrow> Inl TypeError)"
  by (simp add: adaptKey_opt_def adaptKey_def split: option.splits)

text \<open>
  The binary search of \<open>shrink\<close> in a list of keys that ascend strictly when lower-cased:
  it returns the position of the key that equals the phrase, when there is one.
\<close>

lemma shrink_present:
  "\<not> isTrue (KeyCaseSensitive a) \<Longrightarrow> \<not> isTrue (StripKey a) \<Longrightarrow>
   sorted_wrt (\<lambda>k k'. toLowerCase (key_text k) < toLowerCase (key_text k')) ks \<Longrightarrow>
   j < length ks \<Longrightarrow> toLowerCase (key_text (ks ! j)) = word \<Longrightarrow>
   shrink a ks pos word = Inr (pos_or_0 pos + int j)"
proof (induction a ks pos word arbitrary: j rule: shrink.induct)
  case (1 a ks pos word)
  note a = "1.prems"(1,2)
  let ?low = "\<lambda>k. toLowerCase (key_text k)"
  let ?m = "length ks div 2"
  show ?case
  proof (cases "length ks > 1")
    case False
    with "1.prems" have "j = 0"
      by simp
    with "1.prems" False show ?thesis
      by (subst shrink.simps) (simp add: adaptKey_opt_plain a nth_opt_def)
  next
    case long: True
    then have m: "?m < length ks"
      by simp
    show ?thesis
    proof (cases "word < adaptKey a (key_text (ks ! ?m))")
      case True
      have "j < ?m"
      proof (rule ccontr)
        assume "\<not> j < ?m"
        then have "?m = j \<or> ?m < j"
          by auto
        then have "?low (ks ! ?m) \<le> ?low (ks ! j)"
          using sorted_wrt_nth_less [OF "1.prems"(3), of ?m j] "1.prems"(4) by auto
        with True "1.prems"(5) show False
          by (simp add: adaptKey_plain a)
      qed
      moreover have "sorted_wrt (\<lambda>k k'. ?low k < ?low k') (take ?m ks)"
        using "1.prems"(3) by (rule sorted_wrt_take)
      ultimately have "shrink a (take ?m ks) pos word = Inr (pos_or_0 pos + int j)"
        using "1.IH"(1) [OF refl long refl refl True _ a, of j] "1.prems"(5) m
        by (simp add: object_is_primitive_def)
      with long True show ?thesis
        by (subst shrink.simps) (simp add: Let_def object_is_primitive_def)
    next
      case False
      have "?m \<le> j"
      proof (rule ccontr)
        assume "\<not> ?m \<le> j"
        then have "?low (ks ! j) < ?low (ks ! ?m)"
          using sorted_wrt_nth_less [OF "1.prems"(3), of j ?m] m by auto
        with False "1.prems"(5) show False
          by (simp add: adaptKey_plain a)
      qed
      moreover have "sorted_wrt (\<lambda>k k'. ?low k < ?low k') (drop ?m ks)"
        using "1.prems"(3) by (rule sorted_wrt_drop)
      ultimately have "shrink a (drop ?m ks) (Some (pos_or_0 pos + int ?m)) word =
                         Inr (pos_or_0 (Some (pos_or_0 pos + int ?m)) + int (j - ?m))"
        using "1.IH"(2) [OF refl long refl refl False _ a, of "j - ?m"] "1.prems"(4,5)
        by (simp add: object_is_primitive_def)
      with long False \<open>?m \<le> j\<close> show ?thesis
        by (subst shrink.simps) (simp add: Let_def object_is_primitive_def pos_or_0_def)
    qed
  qed
qed

lemma shrink_total:
  "\<not> isTrue (KeyCaseSensitive a) \<Longrightarrow> \<not> isTrue (StripKey a) \<Longrightarrow> ks \<noteq> [] \<Longrightarrow>
   \<exists>idx. shrink a ks pos word = Inr idx \<and> pos_or_0 pos \<le> idx \<and> idx \<le> pos_or_0 pos + int (length ks)"
proof (induction a ks pos word rule: shrink.induct)
  case (1 a ks pos word)
  note a = "1.prems"(1,2)
  let ?m = "length ks div 2"
  show ?case
  proof (cases "length ks > 1")
    case False
    with "1.prems"(3) show ?thesis
      by (subst shrink.simps) (cases ks, simp_all add: adaptKey_opt_plain a nth_opt_def)
  next
    case long: True
    show ?thesis
    proof (cases "word < adaptKey a (key_text (ks ! ?m))")
      case True
      have "take ?m ks \<noteq> []"
        using long by (cases ks) auto
      with "1.IH"(1) [OF refl long refl refl True _ a] obtain idx where
        "shrink a (take ?m ks) pos word = Inr idx" "pos_or_0 pos \<le> idx"
        "idx \<le> pos_or_0 pos + int (length (take ?m ks))"
        by (auto simp add: object_is_primitive_def)
      with long True show ?thesis
        by (subst shrink.simps) (simp add: Let_def object_is_primitive_def)
    next
      case False
      have "drop ?m ks \<noteq> []"
        using long by simp
      with "1.IH"(2) [OF refl long refl refl False _ a] obtain idx where
        "shrink a (drop ?m ks) (Some (pos_or_0 pos + int ?m)) word = Inr idx"
        "pos_or_0 (Some (pos_or_0 pos + int ?m)) \<le> idx"
        "idx \<le> pos_or_0 (Some (pos_or_0 pos + int ?m)) + int (length (drop ?m ks))"
        by (auto simp add: object_is_primitive_def)
      with long False show ?thesis
        by (subst shrink.simps) (simp add: Let_def object_is_primitive_def pos_or_0_def)
    qed
  qed
qed

lemma walk_back_total:
  "\<not> isTrue (KeyCaseSensitive a) \<Longrightarrow> \<not> isTrue (StripKey a) \<Longrightarrow> 0 \<le> idx \<Longrightarrow>
   idx \<le> int (length list) \<Longrightarrow>
   \<exists>idx'. walk_back a list word idx = Inr idx' \<and> 0 \<le> idx' \<and> idx' \<le> idx"
proof (induction a list word idx rule: walk_back.induct)
  case (1 a list word idx)
  note a = "1.prems"(1,2)
  show ?case
  proof (cases "idx > 0")
    case False
    with "1.prems" show ?thesis
      by (subst walk_back.simps) simp
  next
    case True
    with "1.prems" have k: "adaptKey_opt a (map_option key_text (nth_opt list (idx - 1))) =
        Inr (Some (toLowerCase (key_text (list ! nat (idx - 1)))))"
      by (simp add: adaptKey_opt_plain a nth_opt_def)
    show ?thesis
    proof (cases "toLowerCase (key_text (list ! nat (idx - 1))) = word")
      case False
      with True k show ?thesis
        by (subst walk_back.simps) auto
    next
      case same: True
      from "1.IH" [OF True k _ a] same True "1.prems"(4) obtain idx' where
        "walk_back a list word (idx - 1) = Inr idx'" "0 \<le> idx'" "idx' \<le> idx - 1"
        by auto
      with True k same show ?thesis
        by (subst walk_back.simps) auto
    qed
  qed
qed

lemma walk_back_stay:
  assumes a: "\<not> isTrue (KeyCaseSensitive a)" "\<not> isTrue (StripKey a)"
    and i: "i \<le> length list" "i = 0 \<or> toLowerCase (key_text (list ! (i - 1))) \<noteq> word"
  shows "walk_back a list word (int i) = Inr (int i)"
proof (cases "i = 0")
  case True
  then show ?thesis
    by (subst walk_back.simps) simp
next
  case False
  with i have "adaptKey_opt a (map_option key_text (nth_opt list (int i - 1))) =
        Inr (Some (toLowerCase (key_text (list ! (i - 1)))))"
    by (simp add: adaptKey_opt_plain a nth_opt_def nat_diff_distrib')
  with False i show ?thesis
    by (subst walk_back.simps) auto
qed

lemma loadKeys_frame:
  assumes "loadKeys x k d = (r, d')"
  shows "attrs_of d' = attrs_of d" "KEY_INDEX d' = KEY_INDEX d" "file_of d' = file_of d"
    "RECORD_BLOCK_TABLE d' = RECORD_BLOCK_TABLE d" "KEY_TABLE d' = KEY_TABLE d"
  using assms
  by (auto simp add: loadKeys_def Let_def split: if_splits prod.splits sum.splits)

lemma set_js_slice: "set (js_slice xs s e) \<subseteq> set xs"
proof -
  have "set (take n (drop m xs)) \<subseteq> set xs" for n m
    using set_take_subset [of n "drop m xs"] set_drop_subset [of m xs] by blast
  then show ?thesis
    unfolding js_slice_def Let_def by blast
qed

lemma filter_present:
  assumes sorted: "sorted_wrt (\<lambda>k k'. toLowerCase (key_text k) < toLowerCase (key_text k')) list"
    and i: "i < length list" "toLowerCase (key_text (list ! i)) = word"
  shows "filter (\<lambda>v. toLowerCase (key_text v) = word)
           (js_slice list (int i) (int i + MAX_CANDIDATES)) = [list ! i]"
proof -
  let ?low = "\<lambda>k. toLowerCase (key_text k)"
  have "js_slice list (int i) (int i + MAX_CANDIDATES) =
          take (nat (min (int i + 64) (int (length list)) - int i)) (drop i list)"
    using i(1) by (simp add: js_slice_def MAX_CANDIDATES_def Let_def min_def)
  also have "drop i list = list ! i # drop (Suc i) list"
    using i(1) by (simp add: Cons_nth_drop_Suc)
  also obtain n where "nat (min (int i + 64) (int (length list)) - int i) = Suc n"
    using i(1) by (cases "nat (min (int i + 64) (int (length list)) - int i)") (auto simp add: min_def split: if_splits)
  finally have c: "js_slice list (int i) (int i + MAX_CANDIDATES) =
      list ! i # take n (drop (Suc i) list)"
    by simp
  have "?low k \<noteq> word" if "k \<in> set (take n (drop (Suc i) list))" for k
  proof -
    from that have "k \<in> set (drop (Suc i) list)"
      using set_take_subset by fast
    then obtain j where "k = drop (Suc i) list ! j" "j < length (drop (Suc i) list)"
      by (auto simp add: in_set_conv_nth)
    then have "k = list ! (Suc i + j)" "Suc i + j < length list"
      by auto
    with sorted_wrt_nth_less [OF sorted, of i "Suc i + j"] i(2) show ?thesis
      by auto
  qed
  then have "filter (\<lambda>v. ?low v = word) (take n (drop (Suc i) list)) = []"
    by (auto simp add: filter_empty_conv)
  with c i(2) show ?thesis
    by simp
qed

lemma length_flat_of: "length (flat_of ps) = 2 * length ps"
  by (induction ps rule: flat_of.induct) simp_all

lemma flat_of_nth:
  "i < length ps \<Longrightarrow> flat_of ps ! (2 * i) = fst (ps ! i) \<and> flat_of ps ! (2 * i + 1) = snd (ps ! i)"
proof (induction ps arbitrary: i rule: flat_of.induct)
  case 1
  then show ?case by simp
next
  case (2 h k rest)
  then show ?case
    by (cases i) simp_all
qed

lemma pairs_of_flat_of: "pairs_of (flat_of ps) = ps"
  by (induction ps rule: flat_of.induct) simp_all

lemma flat_of_pairs_of: "even (length v) \<Longrightarrow> flat_of (pairs_of v) = v"
  by (induction v rule: pairs_of.induct) simp_all

lemma put_keys_fields:
  "length (view (put_keys x ks t)) = length (view t) \<and>
   length (kdata (put_keys x ks t)) = length (kdata t) \<and>
   korder (put_keys x ks t) = korder t + length ks \<and>
   kpos (put_keys x ks t) = kpos t + 2 * length ks \<and>
   ready (put_keys x ks t) = ready t"
  by (induction ks arbitrary: t) (simp_all add: kt_put_def)

lemma put_keys_frame:
  "(i < korder t \<longrightarrow> kdata (put_keys x ks t) ! i = kdata t ! i) \<and>
   (j < kpos t \<longrightarrow> view (put_keys x ks t) ! j = view t ! j)"
  by (induction ks arbitrary: t) (simp_all add: kt_put_def)

lemma put_keys_nth:
  assumes "kpos t = 2 * korder t" and "korder t + length ks \<le> length (kdata t)"
    and "length (view t) = 2 * length (kdata t)" and "j < length ks"
  shows "view (put_keys x ks t) ! (2 * (korder t + j)) = hash x (key_text (ks ! j)) \<and>
         view (put_keys x ks t) ! (2 * (korder t + j) + 1) = word_of_nat (korder t + j) \<and>
         kdata (put_keys x ks t) ! (korder t + j) = word_of_int (key_offset (ks ! j))"
  using assms
proof (induction ks arbitrary: t j)
  case Nil
  then show ?case by simp
next
  case (Cons k ks)
  let ?t = "kt_put x (key_offset k) (key_text k) t"
  have t: "kpos ?t = 2 * korder ?t" "korder ?t = korder t + 1" "kpos ?t = kpos t + 2"
    "length (kdata ?t) = length (kdata t)" "length (view ?t) = length (view t)"
    using Cons.prems(1) by (simp_all add: kt_put_def)
  show ?case
  proof (cases j)
    case 0
    have "view ?t ! (2 * korder t) = hash x (key_text k)"
      "view ?t ! (2 * korder t + 1) = word_of_nat (korder t)"
      "kdata ?t ! korder t = word_of_int (key_offset k)"
      using Cons.prems(1,2,3) by (simp_all add: kt_put_def)
    with 0 show ?thesis
      using put_keys_frame [of "korder t" ?t x ks "2 * korder t"]
        put_keys_frame [of "korder t" ?t x ks "2 * korder t + 1"] t
      by simp
  next
    case (Suc j')
    with Cons.IH [of ?t j'] Cons.prems t show ?thesis
      by simp
  qed
qed

lemma length_pairs_of: "length (pairs_of v) = length v div 2"
  by (induction v rule: pairs_of.induct) simp_all

lemma pairs_of_nth: "j < length v div 2 \<Longrightarrow> pairs_of v ! j = (v ! (2 * j), v ! (2 * j + 1))"
proof (induction v arbitrary: j rule: pairs_of.induct)
  case (1 h k rest)
  then show ?case
    by (cases j) simp_all
qed simp_all

lemma loaded_table_fields:
  "view (loaded_table x list) = flat_of (sort_key fst (hash_pairs x list))"
  "kdata (loaded_table x list) = map (\<lambda>k. word_of_int (key_offset k)) list"
  "ready (loaded_table x list)"
proof -
  let ?t0 = "kt_alloc (length list) createKeyTable"
  let ?t1 = "put_keys x list ?t0"
  have t0: "kpos ?t0 = 2 * korder ?t0" "korder ?t0 + length list \<le> length (kdata ?t0)"
    "length (view ?t0) = 2 * length (kdata ?t0)" "korder ?t0 = 0" "length (kdata ?t0) = length list"
    by (simp_all add: kt_alloc_def createKeyTable_def)
  note f = put_keys_fields [of x list ?t0]
  note n = put_keys_nth [OF t0(1,2,3), of _ x, unfolded t0(4), simplified]
  have len: "length (view ?t1) = 2 * length list" "length (kdata ?t1) = length list"
    "korder ?t1 = length list"
    using f t0 by simp_all
  have "pairs_of (view ?t1) = hash_pairs x list"
    by (rule nth_equalityI) (simp_all add: length_pairs_of pairs_of_nth len hash_pairs_def n)
  moreover have "kt_pack ?t1 = ?t1"
    by (simp add: kt_pack_def len)
  ultimately show "view (loaded_table x list) = flat_of (sort_key fst (hash_pairs x list))"
    by (simp add: loaded_table_def kt_sort_def Let_def)
  have "kdata ?t1 = map (\<lambda>k. word_of_int (key_offset k)) list"
    by (rule nth_equalityI) (simp_all add: len n)
  with \<open>kt_pack ?t1 = ?t1\<close> show "kdata (loaded_table x list) = map (\<lambda>k. word_of_int (key_offset k)) list"
    by (simp add: loaded_table_def kt_sort_def Let_def)
  show "ready (loaded_table x list)"
    by (simp add: loaded_table_def kt_sort_def Let_def)
qed

text \<open>The binary search of \<open>find\<close> in a table whose hashes ascend strictly.\<close>

lemma u32_at_flat_of:
  "u32_at (flat_of ps) (2 * i) = (if 0 \<le> i \<and> i < int (length ps) then Some (uint (fst (ps ! nat i))) else None)"
  "u32_at (flat_of ps) (2 * i + 1) = (if 0 \<le> i \<and> i < int (length ps) then Some (uint (snd (ps ! nat i))) else None)"
proof -
  have "nat (2 * i) = 2 * nat i" "nat (2 * i + 1) = 2 * nat i + 1" if "0 \<le> i"
    using that by (simp_all add: nat_mult_distrib nat_add_distrib)
  then show "u32_at (flat_of ps) (2 * i) = (if 0 \<le> i \<and> i < int (length ps) then Some (uint (fst (ps ! nat i))) else None)"
    "u32_at (flat_of ps) (2 * i + 1) = (if 0 \<le> i \<and> i < int (length ps) then Some (uint (snd (ps ! nat i))) else None)"
    using flat_of_nth [of "nat i" ps]
    by (auto simp add: u32_at_def length_flat_of)
qed

lemma strict_nth:
  assumes "sorted_wrt (\<lambda>p q. fst p < fst q) ps" and "i < length ps" and "j < length ps"
  shows "uint (fst (ps ! i)) < uint (fst (ps ! j)) \<longleftrightarrow> i < j"
    and "uint (fst (ps ! i)) = uint (fst (ps ! j)) \<longleftrightarrow> i = j"
proof -
  have lt: "fst (ps ! i) < fst (ps ! j)" if "i < j" "j < length ps" for i j
    using sorted_wrt_nth_less [OF assms(1) that] .
  show "uint (fst (ps ! i)) < uint (fst (ps ! j)) \<longleftrightarrow> i < j"
    using lt [of i j] lt [of j i] assms(2,3)
    by (cases "i < j"; cases "j < i") (auto simp add: word_less_def)
  show "uint (fst (ps ! i)) = uint (fst (ps ! j)) \<longleftrightarrow> i = j"
    using lt [of i j] lt [of j i] assms(2,3)
    by (cases "i < j"; cases "j < i") (auto simp add: word_less_def)
qed

lemma find_loop_absent:
  "\<forall>i < length ps. uint (fst (ps ! i)) \<noteq> h \<Longrightarrow> find_loop (flat_of ps) dt h lo hi = None"
proof (induction "flat_of ps" dt h lo hi rule: find_loop.induct)
  case (1 dt h lo hi)
  have v: "u32_at (flat_of ps) (2 * ((lo + hi) div 2)) \<noteq> Some h"
  proof (cases "0 \<le> (lo + hi) div 2 \<and> (lo + hi) div 2 < int (length ps)")
    case True
    then have "nat ((lo + hi) div 2) < length ps"
      by linarith
    with "1.prems" have "uint (fst (ps ! nat ((lo + hi) div 2))) \<noteq> h"
      by blast
    with True show ?thesis
      by (simp add: u32_at_flat_of)
  next
    case False
    then show ?thesis
      by (auto simp add: u32_at_flat_of)
  qed
  show ?case
    apply (subst find_loop.simps)
    using v "1.hyps" [OF refl refl v _ _ "1.prems"] "1.hyps"(2) [OF refl refl v _ _ "1.prems"]
    apply (auto simp add: Let_def)
    done
qed

lemma find_loop_found:
  assumes sorted: "sorted_wrt (\<lambda>p q. fst p < fst q) ps" and j: "j < length ps"
  shows "uint (fst (ps ! j)) = h \<Longrightarrow> 0 \<le> lo \<Longrightarrow> lo \<le> int j \<Longrightarrow>
         int j < hi \<or> (lo = hi \<and> int j = lo) \<Longrightarrow> hi < int (length ps) \<Longrightarrow>
         find_loop (flat_of ps) dt h lo hi =
           Some (collect_same (flat_of ps) dt h (first_same (flat_of ps) h (int j)))"
proof (induction "flat_of ps" dt h lo hi rule: find_loop.induct)
  case (1 dt h lo hi)
  let ?i = "(lo + hi) div 2"
  note h = "1.prems"(1)
  have i: "0 \<le> ?i" "?i < int (length ps)" "lo \<le> ?i" "?i \<le> hi"
    using "1.prems" by auto
  then have ni: "nat ?i < length ps"
    by linarith
  have val: "u32_at (flat_of ps) (2 * ?i) = Some (uint (fst (ps ! nat ?i)))"
    using i by (simp add: u32_at_flat_of)
  show ?case
  proof (cases "uint (fst (ps ! nat ?i)) = h")
    case True
    with strict_nth(2) [OF sorted ni j] h i(1) have "?i = int j"
      by auto
    with True val show ?thesis
      by (subst find_loop.simps) (simp add: Let_def)
  next
    case False
    then have ne: "u32_at (flat_of ps) (2 * ?i) \<noteq> Some h"
      using val by simp
    from False h have "nat ?i \<noteq> j"
      by auto
    then have nj: "?i \<noteq> int j"
      using i(1) by auto
    have go: "\<not> (hi = lo \<or> ?i = hi \<or> ?i = lo)"
      using "1.prems"(3,4) nj by auto
    show ?thesis
    proof (cases "h < uint (fst (ps ! nat ?i))")
      case True
      then have t: "(case u32_at (flat_of ps) (2 * ?i) of None \<Rightarrow> False | Some v \<Rightarrow> h < v)"
        by (simp add: val)
      from True h strict_nth(1) [OF sorted j ni] have "int j < ?i"
        by auto
      with "1.hyps"(1) [OF refl refl ne go t h "1.prems"(2,3)] i(2)
      have "find_loop (flat_of ps) dt h lo ?i =
              Some (collect_same (flat_of ps) dt h (first_same (flat_of ps) h (int j)))"
        by simp
      with ne go t show ?thesis
        by (subst find_loop.simps) (simp add: Let_def)
    next
      case notless: False
      then have t: "\<not> (case u32_at (flat_of ps) (2 * ?i) of None \<Rightarrow> False | Some v \<Rightarrow> h < v)"
        by (simp add: val)
      from notless False h strict_nth(1) [OF sorted ni j] have "?i < int j"
        by auto
      moreover have "int j < hi"
        using "1.prems"(4) go by auto
      ultimately
      have "find_loop (flat_of ps) dt h ?i hi =
              Some (collect_same (flat_of ps) dt h (first_same (flat_of ps) h (int j)))"
        using "1.hyps"(2) [OF refl refl ne go t h i(1)] "1.prems"(5)
        by simp
      with ne go t show ?thesis
        by (subst find_loop.simps) (simp add: Let_def)
    qed
  qed
qed

lemma first_same_strict:
  assumes "sorted_wrt (\<lambda>p q. fst p < fst q) ps" and "j < length ps"
    and "uint (fst (ps ! j)) = h"
  shows "first_same (flat_of ps) h (int j) = int j"
proof (cases j)
  case 0
  have "u32_at (flat_of ps) (2 * (- 1)) = None"
    by (simp only: u32_at_flat_of) simp
  with 0 show ?thesis
    by (subst first_same.simps) simp
next
  case (Suc j')
  with strict_nth(2) [OF assms(1), of j' j] assms(2,3)
  have "uint (fst (ps ! j')) \<noteq> h"
    by auto
  moreover have "u32_at (flat_of ps) (2 * int j') = Some (uint (fst (ps ! j')))"
    using Suc assms(2) by (simp only: u32_at_flat_of) simp
  ultimately show ?thesis
    using Suc by (subst first_same.simps) simp
qed

lemma collect_same_strict:
  assumes "sorted_wrt (\<lambda>p q. fst p < fst q) ps" and "j < length ps"
    and "uint (fst (ps ! j)) = h"
  shows "collect_same (flat_of ps) dt h (int j) = [keyinfo_at dt (Some (uint (snd (ps ! j))))]"
proof -
  have "u32_at (flat_of ps) (2 * (int j + 1)) \<noteq> Some h"
  proof (cases "Suc j < length ps")
    case True
    with strict_nth(2) [OF assms(1), of "Suc j" j] assms(2,3)
    have "uint (fst (ps ! Suc j)) \<noteq> h"
      by auto
    moreover have "u32_at (flat_of ps) (2 * (int j + 1)) = Some (uint (fst (ps ! Suc j)))"
      using True by (simp only: u32_at_flat_of) (simp add: nat_add_distrib)
    ultimately show ?thesis
      by simp
  next
    case False
    then have "u32_at (flat_of ps) (2 * (int j + 1)) = None"
      by (simp only: u32_at_flat_of) simp
    then show ?thesis
      by simp
  qed
  moreover have "u32_at (flat_of ps) (2 * int j + 1) = Some (uint (snd (ps ! j)))"
    using assms(2) by (simp only: u32_at_flat_of) simp
  ultimately show ?thesis
    by (subst collect_same.simps) simp
qed

text \<open>The sorted entries of a table whose keys have different hashes.\<close>

lemma hash_pairs_sorted:
  assumes "distinct (map (\<lambda>k. hash x (key_text k)) list)"
  shows "sorted_wrt (\<lambda>p q. fst p < fst q) (sort_key fst (hash_pairs x list))"
proof -
  have m: "map fst (hash_pairs x list) = map (\<lambda>k. hash x (key_text k)) list"
    by (rule nth_equalityI) (simp_all add: hash_pairs_def)
  with assms have "distinct (map fst (hash_pairs x list))"
    by simp
  then have "distinct (hash_pairs x list)" "inj_on fst (set (hash_pairs x list))"
    by (simp_all add: distinct_map)
  then have "distinct (map fst (sort_key fst (hash_pairs x list)))"
    by (simp add: distinct_map)
  moreover have "sorted (map fst (sort_key fst (hash_pairs x list)))"
    by simp
  ultimately have "sorted_wrt (<) (map fst (sort_key fst (hash_pairs x list)))"
    by (simp add: strict_sorted_iff)
  then show ?thesis
    by (simp add: sorted_wrt_map)
qed

lemma hash_pairs_position:
  assumes "i < length list"
  obtains j where "j < length list"
    and "sort_key fst (hash_pairs x list) ! j = (hash x (key_text (list ! i)), word_of_nat i)"
proof -
  have "(hash x (key_text (list ! i)), word_of_nat i) \<in> set (hash_pairs x list)"
    using assms by (auto simp add: hash_pairs_def)
  then have "(hash x (key_text (list ! i)), word_of_nat i) \<in> set (sort_key fst (hash_pairs x list))"
    by simp
  then obtain j where "j < length (sort_key fst (hash_pairs x list))"
    "sort_key fst (hash_pairs x list) ! j = (hash x (key_text (list ! i)), word_of_nat i)"
    by (metis in_set_conv_nth)
  then show ?thesis
    by (intro that [of j]) (simp_all add: hash_pairs_def)
qed

lemma kt_find_loaded_absent:
  assumes "\<forall>k \<in> set list. hash x (key_text k) \<noteq> hash x word"
  shows "kt_find x (loaded_table x list) word = None"
proof -
  let ?ps = "sort_key fst (hash_pairs x list)"
  have "uint (fst (?ps ! i)) \<noteq> uint (hash x word)" if "i < length ?ps" for i
  proof -
    from that have "?ps ! i \<in> set ?ps"
      by (rule nth_mem)
    then have "?ps ! i \<in> set (hash_pairs x list)"
      by simp
    then obtain j where "j < length list" "fst (?ps ! i) = hash x (key_text (list ! j))"
      by (auto simp add: hash_pairs_def)
    with assms show ?thesis
      by (metis nth_mem word_uint_eq_iff)
  qed
  then show ?thesis
    unfolding kt_find_def loaded_table_fields
    by (intro find_loop_absent) blast
qed

lemma kt_find_loaded_present:
  assumes distinct: "distinct (map (\<lambda>k. hash x (key_text k)) list)"
    and i: "i < length list" "hash x (key_text (list ! i)) = hash x word"
    and range: "length list < 2 ^ 32" "0 \<le> key_offset (list ! i)" "key_offset (list ! i) < 2 ^ 32"
    and inner: "length list = 1 \<or> (\<exists>k \<in> set list. hash x word < hash x (key_text k))"
  shows "\<exists>sz. kt_find x (loaded_table x list) word =
           Some [\<lparr>ki_offset = Some (key_offset (list ! i)), ki_size = sz\<rparr>]"
proof -
  let ?ps = "sort_key fst (hash_pairs x list)"
  let ?h = "uint (hash x word)"
  have len: "length ?ps = length list"
    by (simp add: hash_pairs_def)
  note sorted = hash_pairs_sorted [OF distinct]
  from hash_pairs_position [OF i(1), of x] obtain j where
    j: "j < length list" "?ps ! j = (hash x (key_text (list ! i)), word_of_nat i)"
    by blast
  then have hj: "uint (fst (?ps ! j)) = ?h" and jl: "j < length ?ps"
    using i(2) len by simp_all
  have bound: "int j < int (length ?ps) - 1 \<or> (0 = int (length ?ps) - 1 \<and> int j = 0)"
  proof (cases "length list = 1")
    case True
    with j(1) len show ?thesis
      by simp
  next
    case False
    with inner obtain k where k: "k \<in> set list" "hash x word < hash x (key_text k)"
      by blast
    then obtain i' where i': "i' < length list" "list ! i' = k"
      by (auto simp add: in_set_conv_nth)
    from hash_pairs_position [OF i'(1), of x] obtain j' where
      j': "j' < length list" "?ps ! j' = (hash x (key_text (list ! i')), word_of_nat i')"
      by blast
    with k(2) i'(2) j(2) i(2) have "uint (fst (?ps ! j)) < uint (fst (?ps ! j'))"
      by (simp add: word_less_def)
    with strict_nth(1) [OF sorted jl, of j'] j'(1) len have "j < j'"
      by simp
    with j'(1) len show ?thesis
      by simp
  qed
  have "find_loop (flat_of ?ps) (kdata (loaded_table x list)) ?h 0 (int (length ?ps) - 1) =
          Some (collect_same (flat_of ?ps) (kdata (loaded_table x list)) ?h
                  (first_same (flat_of ?ps) ?h (int j)))"
    using bound by (intro find_loop_found [OF sorted jl hj]) simp_all
  also have "first_same (flat_of ?ps) ?h (int j) = int j"
    using sorted jl hj by (rule first_same_strict)
  also have "collect_same (flat_of ?ps) (kdata (loaded_table x list)) ?h (int j) =
               [keyinfo_at (kdata (loaded_table x list)) (Some (uint (snd (?ps ! j))))]"
    using sorted jl hj by (rule collect_same_strict)
  also have "uint (snd (?ps ! j)) = int i"
    using j(2) i(1) range(1) by (simp add: uint_word_of_int_32 [of "int i", simplified])
  finally have "kt_find x (loaded_table x list) word =
      Some [keyinfo_at (kdata (loaded_table x list)) (Some (int i))]"
    by (simp add: kt_find_def loaded_table_fields length_flat_of)
  moreover have "ki_offset (keyinfo_at (kdata (loaded_table x list)) (Some (int i))) =
      Some (key_offset (list ! i))"
    using i(1) range(2,3)
    by (simp add: keyinfo_at_def u32_at_def loaded_table_fields uint_word_of_int_32)
  ultimately show ?thesis
    by (intro exI [of _ "ki_size (keyinfo_at (kdata (loaded_table x list)) (Some (int i)))"])
       (simp add: keyinfo.equality)
qed

lemma findWord_block_offset: "ki_offset k = ki_offset k' \<Longrightarrow> findWord_block d k = findWord_block d k'"
  by (simp add: findWord_block_def)

lemma read_definition_offset:
  "ki_offset k = ki_offset k' \<Longrightarrow> read_definition x a input blk k = read_definition x a input blk k'"
  by (simp add: read_definition_def split: prod.splits sum.splits)

lemma map_findWord_one:
  assumes k: "ki_offset k = Some off"
    and same: "attrs_of d = attrs_of d0" "file_of d = file_of d0"
      "RECORD_BLOCK_TABLE d = RECORD_BLOCK_TABLE d0"
    and nolink: "\<forall>defn. record_text x d0 off = Inr defn \<longrightarrow> substring defn 0 8 \<noteq> ''@@@LINK=''"
  shows "map_findWord x lookup [k] d =
           Some (case findWord_block d0 \<lparr>ki_offset = Some off, ki_size = None\<rparr> of
                   Inl e \<Rightarrow> Inl e
                 | Inr blk \<Rightarrow>
                     (case record_text x d0 off of
                        Inl e \<Rightarrow> Inr [Rejected e]
                      | Inr defn \<Rightarrow> Inr [Resolved (Text defn)]), d)"
proof -
  let ?k = "\<lparr>ki_offset = Some off, ki_size = None\<rparr>"
  have b: "findWord_block d k = findWord_block d0 ?k"
    using k same(3) by (simp add: findWord_block_def)
  show ?thesis
  proof (cases "findWord_block d0 ?k")
    case (Inl e)
    with b show ?thesis
      by (simp add: map_findWord_def)
  next
    case (Inr blk)
    have r: "read_definition x (attrs_of d) (sliceThen (file_of d) (comp_offset blk) (comp_size blk)) blk k =
             record_text x d0 off"
      using Inr k same by (simp add: record_text_def read_definition_def split: prod.splits sum.splits)
    show ?thesis
    proof (cases "record_text x d0 off")
      case (Inl e)
      with Inr b r show ?thesis
        by (simp add: map_findWord_def findWord_then_def)
    next
      case defn: (Inr defn)
      with nolink have "substring defn 0 8 \<noteq> ''@@@LINK=''"
        by simp
      with Inr defn b r show ?thesis
        by (simp add: map_findWord_def findWord_then_def followLink_def unthrown_def)
    qed
  qed
qed

lemma filter_single:
  assumes "i < length xs" and "P (xs ! i)" and "\<And>j. j < length xs \<Longrightarrow> P (xs ! j) \<Longrightarrow> j = i"
  shows "filter P xs = [xs ! i]"
proof -
  have "\<not> P y" if "y \<in> set (take i xs)" for y
  proof -
    from that obtain j where "j < i" "y = xs ! j"
      using assms(1) by (auto simp add: in_set_conv_nth)
    with assms(1) assms(3) [of j] show ?thesis
      by auto
  qed
  then have l: "filter P (take i xs) = []"
    by (simp add: filter_empty_conv)
  have "\<not> P y" if "y \<in> set (drop (Suc i) xs)" for y
  proof -
    from that obtain j where "j < length xs - Suc i" "y = xs ! (Suc i + j)"
      by (auto simp add: in_set_conv_nth)
    moreover from this have "Suc i + j < length xs"
      by arith
    ultimately show ?thesis
      using assms(3) [of "Suc i + j"] by auto
  qed
  then have r: "filter P (drop (Suc i) xs) = []"
    by (simp add: filter_empty_conv)
  have "filter P xs = filter P (take i xs @ xs ! i # drop (Suc i) xs)"
    using id_take_nth_drop [OF assms(1)] by simp
  also have "\<dots> = [xs ! i]"
    using l r assms(2) by simp
  finally show ?thesis .
qed

lemma sorted_keys_distinct:
  assumes "sorted_wrt (\<lambda>k k'. toLowerCase (key_text k) < toLowerCase (key_text k')) list"
    and "i < length list" and "j < length list"
    and "toLowerCase (key_text (list ! i)) = toLowerCase (key_text (list ! j))"
  shows "i = j"
  using sorted_wrt_nth_less [OF assms(1), of i j] sorted_wrt_nth_less [OF assms(1), of j i] assms(2-)
  by (cases "i < j"; cases "j < i") auto

lemma hash_word:
  assumes "inj_on (hashString x) (insert word ((\<lambda>k. toLowerCase (key_text k)) ` set list))"
    and "toLowerCase word = word" and "k \<in> set list"
  shows "hash x (key_text k) = hash x word \<longleftrightarrow> toLowerCase (key_text k) = word"
  using assms by (auto simp add: hash_def inj_on_def)

lemma hash_keys_distinct:
  assumes "inj_on (hashString x) (insert word ((\<lambda>k. toLowerCase (key_text k)) ` set list))"
    and "sorted_wrt (\<lambda>k k'. toLowerCase (key_text k) < toLowerCase (key_text k')) list"
  shows "distinct (map (\<lambda>k. hash x (key_text k)) list)"
proof -
  have "i = j" if "i < length list" "j < length list"
    "hash x (key_text (list ! i)) = hash x (key_text (list ! j))" for i j
  proof -
    from that assms(1) have "toLowerCase (key_text (list ! i)) = toLowerCase (key_text (list ! j))"
      by (auto simp add: hash_def inj_on_def)
    with assms(2) that(1,2) show ?thesis
      by (rule sorted_keys_distinct)
  qed
  then show ?thesis
    by (auto simp add: distinct_conv_nth)
qed

text \<open>
  The outcome of a lookup in express mode, for a table loaded from keys that ascend
  strictly when lower-cased and a word whose record is not a link.
\<close>

lemma express_lookup:
  assumes word: "toLowerCase (trim phrase) = word"
    and hashes: "inj_on (hashString x) (insert word ((\<lambda>k. toLowerCase (key_text k)) ` set list))"
    and sorted: "sorted_wrt (\<lambda>k k'. toLowerCase (key_text k) < toLowerCase (key_text k')) list"
    and range: "length list < 2 ^ 32" "\<forall>k \<in> set list. 0 \<le> key_offset k \<and> key_offset k < 2 ^ 32"
    and inner: "length list = 1 \<or> (\<exists>k \<in> set list. hash x word < hash x (key_text k))"
    and nolink: "\<forall>k \<in> set list. \<forall>defn. toLowerCase (key_text k) = word \<longrightarrow>
                   record_text x d (key_offset k) = Inr defn \<longrightarrow> substring defn 0 8 \<noteq> ''@@@LINK=''"
  shows "mdx_body x lookup phrase None (d\<lparr>KEY_TABLE := loaded_table x list\<rparr>) =
           Some (case filter (\<lambda>k. toLowerCase (key_text k) = word) list of
                   [] \<Rightarrow> Rejected (Message (''*WORD NOT FOUND* '' @ phrase))
                 | k # _ \<Rightarrow>
                     (case findWord_block d \<lparr>ki_offset = Some (key_offset k), ki_size = None\<rparr> of
                        Inl e \<Rightarrow> Thrown e
                      | Inr blk \<Rightarrow>
                          (case record_text x d (key_offset k) of
                             Inl e \<Rightarrow> Rejected TypeError
                           | Inr defn \<Rightarrow> Resolved (Items [Text defn]))),
                 d\<lparr>KEY_TABLE := loaded_table x list\<rparr>)"
proof -
  let ?d = "d\<lparr>KEY_TABLE := loaded_table x list\<rparr>"
  have lw: "toLowerCase word = word"
    using word toLowerCase_idem by blast
  have ready: "isReady (KEY_TABLE ?d)"
    by (simp add: isReady_def loaded_table_fields)
  show ?thesis
  proof (cases "\<exists>i < length list. toLowerCase (key_text (list ! i)) = word")
    case False
    then have none: "\<forall>k \<in> set list. toLowerCase (key_text k) \<noteq> word"
      by (auto simp add: in_set_conv_nth)
    then have "\<forall>k \<in> set list. hash x (key_text k) \<noteq> hash x word"
      using hash_word [OF hashes lw] by simp
    then have "kt_find x (loaded_table x list) word = None"
      by (rule kt_find_loaded_absent)
    moreover have "filter (\<lambda>k. toLowerCase (key_text k) = word) list = []"
      using none by (auto simp add: filter_empty_conv)
    ultimately show ?thesis
      using ready by (simp add: mdx_body_def word express_infos_def)
  next
    case True
    then obtain i where i: "i < length list" "toLowerCase (key_text (list ! i)) = word"
      by blast
    have f: "filter (\<lambda>k. toLowerCase (key_text k) = word) list = [list ! i]"
      using i(1) i(2)
    proof (rule filter_single)
      fix j
      assume "j < length list" "toLowerCase (key_text (list ! j)) = word"
      with sorted show "j = i"
        using i by (intro sorted_keys_distinct [of list j i]) simp_all
    qed
    have "hash x (key_text (list ! i)) = hash x word"
      using hash_word [OF hashes lw, of "list ! i"] i by simp
    moreover have "0 \<le> key_offset (list ! i)" "key_offset (list ! i) < 2 ^ 32"
      using range(2) i(1) by simp_all
    ultimately obtain sz where
      "kt_find x (loaded_table x list) word =
         Some [\<lparr>ki_offset = Some (key_offset (list ! i)), ki_size = sz\<rparr>]"
      using kt_find_loaded_present [OF hash_keys_distinct [OF hashes sorted] i(1) _ range(1) _ _ inner]
      by blast
    moreover have "map_findWord x lookup [\<lparr>ki_offset = Some (key_offset (list ! i)), ki_size = sz\<rparr>] ?d =
        Some (case findWord_block d \<lparr>ki_offset = Some (key_offset (list ! i)), ki_size = None\<rparr> of
                Inl e \<Rightarrow> Inl e
              | Inr blk \<Rightarrow>
                  (case record_text x d (key_offset (list ! i)) of
                     Inl e \<Rightarrow> Inr [Rejected e]
                   | Inr defn \<Rightarrow> Inr [Resolved (Text defn)]), ?d)"
    proof (rule map_findWord_one)
      show "\<forall>defn. record_text x d (key_offset (list ! i)) = Inr defn \<longrightarrow>
                   substring defn 0 8 \<noteq> ''@@@LINK=''"
        using nolink i nth_mem [OF i(1)] by blast
    qed simp_all
    ultimately show ?thesis
      using ready
      by (simp add: mdx_body_def word express_infos_def f harvest_def split: sum.splits)
  qed
qed

text \<open>
  The binary search of \<open>reduce\<close> in a keyword index whose first words ascend strictly
  when lower-cased, and where no block begins with the last word of the block before it:
  it returns the last block whose first word is not above the phrase.
\<close>

lemma look_back_stay:
  assumes "0 < len \<longrightarrow> kdx_last_word (ks ! (len - 1)) \<noteq> kdx_first_word (ks ! len)"
  shows "look_back ks len = len"
  using assms by (subst look_back.simps) auto

lemma reduce_present:
  "\<not> isTrue (KeyCaseSensitive a) \<Longrightarrow> \<not> isTrue (StripKey a) \<Longrightarrow>
   sorted_wrt (\<lambda>k k'. toLowerCase (kdx_first_word k) < toLowerCase (kdx_first_word k')) ks \<Longrightarrow>
   \<forall>l < length ks. 0 < l \<longrightarrow> kdx_last_word (ks ! (l - 1)) \<noteq> kdx_first_word (ks ! l) \<Longrightarrow>
   i < length ks \<Longrightarrow> toLowerCase (kdx_first_word (ks ! i)) \<le> word \<Longrightarrow>
   \<forall>i' < length ks. i < i' \<longrightarrow> word < toLowerCase (kdx_first_word (ks ! i')) \<Longrightarrow>
   reduce a ks word = Some (ks ! i)"
proof (induction a ks word arbitrary: i rule: reduce.induct)
  case (1 a ks word)
  note a = "1.prems"(1,2)
  let ?F = "\<lambda>k. toLowerCase (kdx_first_word k)"
  let ?m = "length ks div 2"
  show ?case
  proof (cases "length ks > 1")
    case False
    with "1.prems"(5) have "i = 0"
      by simp
    with False "1.prems"(5) show ?thesis
      by (subst reduce.simps) (simp add: nth_opt_def)
  next
    case long: True
    then have m: "?m < length ks" "0 < ?m"
      by simp_all
    have stay: "look_back ks ?m = ?m"
      using "1.prems"(4) m by (intro look_back_stay) simp
    show ?thesis
    proof (cases "word < adaptKey a (kdx_first_word (ks ! ?m))")
      case True
      have "i < ?m"
      proof (rule ccontr)
        assume "\<not> i < ?m"
        then have "?m = i \<or> ?m < i"
          by auto
        then have "?F (ks ! ?m) \<le> ?F (ks ! i)"
          using sorted_wrt_nth_less [OF "1.prems"(3), of ?m i] "1.prems"(5) by auto
        with True "1.prems"(6) show False
          by (simp add: adaptKey_def a)
      qed
      have "reduce a (take (look_back ks ?m) ks) word = Some (take (look_back ks ?m) ks ! i)"
      proof (rule "1.IH"(1) [OF refl long refl True a])
        show "sorted_wrt (\<lambda>k k'. ?F k < ?F k') (take (look_back ks ?m) ks)"
          using "1.prems"(3) by (rule sorted_wrt_take)
        show "\<forall>l < length (take (look_back ks ?m) ks). 0 < l \<longrightarrow>
                kdx_last_word (take (look_back ks ?m) ks ! (l - 1)) \<noteq>
                kdx_first_word (take (look_back ks ?m) ks ! l)"
          using "1.prems"(4) by (simp add: stay)
        show "i < length (take (look_back ks ?m) ks)"
          using \<open>i < ?m\<close> m by (simp add: stay)
        show "?F (take (look_back ks ?m) ks ! i) \<le> word"
          using "1.prems"(6) \<open>i < ?m\<close> by (simp add: stay)
        show "\<forall>i' < length (take (look_back ks ?m) ks). i < i' \<longrightarrow>
                word < ?F (take (look_back ks ?m) ks ! i')"
          using "1.prems"(7) by (simp add: stay)
      qed
      with long True \<open>i < ?m\<close> show ?thesis
        by (subst reduce.simps) (simp add: Let_def stay)
    next
      case False
      have "?m \<le> i"
      proof (rule ccontr)
        assume "\<not> ?m \<le> i"
        with "1.prems"(7) m have "word < ?F (ks ! ?m)"
          by simp
        with False show False
          by (simp add: adaptKey_def a)
      qed
      have "reduce a (drop ?m ks) word = Some (drop ?m ks ! (i - ?m))"
      proof (rule "1.IH"(2) [OF refl long refl False a])
        show "sorted_wrt (\<lambda>k k'. ?F k < ?F k') (drop ?m ks)"
          using "1.prems"(3) by (rule sorted_wrt_drop)
        show "\<forall>l < length (drop ?m ks). 0 < l \<longrightarrow>
                kdx_last_word (drop ?m ks ! (l - 1)) \<noteq> kdx_first_word (drop ?m ks ! l)"
        proof (intro allI impI)
          fix l
          assume l: "l < length (drop ?m ks)" "0 < l"
          then have "?m + l < length ks" "0 < ?m + l" "?m + (l - 1) = ?m + l - 1"
            by simp_all
          with "1.prems"(4) show "kdx_last_word (drop ?m ks ! (l - 1)) \<noteq> kdx_first_word (drop ?m ks ! l)"
            by (metis nth_drop less_imp_le_nat m(1))
        qed
        show "i - ?m < length (drop ?m ks)"
          using \<open>?m \<le> i\<close> "1.prems"(5) by simp
        show "?F (drop ?m ks ! (i - ?m)) \<le> word"
          using "1.prems"(6) \<open>?m \<le> i\<close> m by simp
        show "\<forall>i' < length (drop ?m ks). i - ?m < i' \<longrightarrow> word < ?F (drop ?m ks ! i')"
          using "1.prems"(7) \<open>?m \<le> i\<close> m by auto
      qed
      with long False \<open>?m \<le> i\<close> m show ?thesis
        by (subst reduce.simps) (simp add: Let_def)
    qed
  qed
qed

lemma look_back_pos: "0 < len \<Longrightarrow> 0 < look_back ks len"
proof (induction ks len rule: look_back.induct)
  case (1 ks len)
  show ?case
    using "1.prems" "1.IH"
    by (subst look_back.simps) auto
qed

lemma reduce_total: "ks \<noteq> [] \<Longrightarrow> \<exists>b < length ks. reduce a ks word = Some (ks ! b)"
proof (induction a ks word rule: reduce.induct)
  case (1 a ks word)
  let ?m = "length ks div 2"
  show ?case
  proof (cases "length ks > 1")
    case False
    with "1.prems" show ?thesis
      by (subst reduce.simps) (auto simp add: nth_opt_def intro!: exI [of _ 0])
  next
    case long: True
    then have m: "?m < length ks" "0 < ?m"
      by simp_all
    show ?thesis
    proof (cases "word < adaptKey a (kdx_first_word (ks ! ?m))")
      case True
      let ?n = "look_back ks ?m"
      have n: "0 < ?n" "?n \<le> ?m"
        using look_back_pos [OF m(2)] look_back_le by simp_all
      then have "take ?n ks \<noteq> []"
        using m by auto
      from "1.IH"(1) [OF refl long refl True this] obtain b where
        "b < length (take ?n ks)" "reduce a (take ?n ks) word = Some (take ?n ks ! b)"
        by blast
      with long True n m show ?thesis
        by (subst reduce.simps) (auto simp add: Let_def intro!: exI [of _ b])
    next
      case False
      have "drop ?m ks \<noteq> []"
        using m by simp
      from "1.IH"(2) [OF refl long refl False this] obtain b where
        "b < length (drop ?m ks)" "reduce a (drop ?m ks) word = Some (drop ?m ks ! b)"
        by blast
      with long False m show ?thesis
        by (subst reduce.simps) (auto simp add: Let_def intro!: exI [of _ "?m + b"])
    qed
  qed
qed

lemma sorted_wrt_concat_block:
  "sorted_wrt P (concat ls) \<Longrightarrow> i < length ls \<Longrightarrow> sorted_wrt P (ls ! i)"
proof (induction ls arbitrary: i)
  case Nil
  then show ?case by simp
next
  case (Cons l ls)
  then show ?case
    by (cases i) (auto simp add: sorted_wrt_append)
qed

lemma sorted_wrt_concat_blocks:
  "sorted_wrt P (concat ls) \<Longrightarrow> i < i' \<Longrightarrow> i' < length ls \<Longrightarrow>
   x \<in> set (ls ! i) \<Longrightarrow> y \<in> set (ls ! i') \<Longrightarrow> P x y"
proof (induction ls arbitrary: i i')
  case Nil
  then show ?case by simp
next
  case (Cons l ls)
  show ?case
  proof (cases i)
    case 0
    with Cons.prems obtain j where j: "i' = Suc j" "j < length ls" "y \<in> set (ls ! j)"
      by (cases i') auto
    from j(2) have "ls ! j \<in> set ls"
      by (rule nth_mem)
    with j(3) have "y \<in> set (concat ls)"
      by auto
    with 0 Cons.prems(1,4) show ?thesis
      by (auto simp add: sorted_wrt_append)
  next
    case (Suc j)
    with Cons.prems obtain j' where "i' = Suc j'"
      by (cases i') auto
    with Suc Cons.prems Cons.IH [of j j'] show ?thesis
      by (auto simp add: sorted_wrt_append)
  qed
qed

lemma loadKeys_cache:
  assumes same: "attrs_of d1 = attrs_of d" "file_of d1 = file_of d"
    and miss: "\<not> (case last_keys d1 of None \<Rightarrow> False | Some (list, pilot) \<Rightarrow> pilot = kdx_first_word k)"
    and load: "fst (loadKeys x k (d\<lparr>last_keys := None\<rparr>)) = Inr list"
  shows "loadKeys x k d1 = (Inr list, d1\<lparr>last_keys := Some (list, kdx_first_word k)\<rparr>)"
proof -
  let ?rb = "readBlock x (attrs_of d) (kdx_comp_size k) (Some (kdx_decomp_size k)) None
               (Scanner (sliceThen (file_of d) (kdx_offset k) (kdx_comp_size k)))"
  obtain r s where rb: "?rb = (r, s)"
    by (cases ?rb)
  show ?thesis
  proof (cases r)
    case (Inl e)
    with rb load show ?thesis
      by (simp add: loadKeys_def Let_def)
  next
    case (Inr scanner)
    show ?thesis
    proof (cases "read_keys x (attrs_of d) (nat (kdx_num_entries k)) 0 [] scanner")
      case (Inl e)
      with rb Inr load show ?thesis
        by (simp add: loadKeys_def Let_def)
    next
      case keys: (Inr l)
      with rb Inr load have "l = list"
        by (simp add: loadKeys_def Let_def)
      with rb Inr keys miss show ?thesis
        by (simp add: loadKeys_def Let_def same)
    qed
  qed
qed

lemma key_blocks_order:
  assumes kb: "key_blocks x d kss"
    and sorted: "sorted_wrt (\<lambda>k k'. toLowerCase (key_text k) < toLowerCase (key_text k')) (concat kss)"
    and i: "i < i'" "i' < length kss" "k \<in> set (kss ! i)"
  shows "toLowerCase (key_text k) < toLowerCase (kdx_first_word (KEY_INDEX d ! i'))"
proof -
  from kb i(2) have "kss ! i' \<noteq> []" "kdx_first_word (KEY_INDEX d ! i') = key_text (hd (kss ! i'))"
    by (simp_all add: key_blocks_def)
  moreover from this have "hd (kss ! i') \<in> set (kss ! i')"
    by simp
  ultimately show ?thesis
    using sorted_wrt_concat_blocks [OF sorted i(1,2,3)] by simp
qed

lemma key_blocks_first:
  assumes kb: "key_blocks x d kss"
    and sorted: "sorted_wrt (\<lambda>k k'. toLowerCase (key_text k) < toLowerCase (key_text k')) (concat kss)"
    and i: "i < length kss" "k \<in> set (kss ! i)"
  shows "toLowerCase (kdx_first_word (KEY_INDEX d ! i)) \<le> toLowerCase (key_text k)"
proof -
  from kb i(1) have ne: "kss ! i \<noteq> []" and fw: "kdx_first_word (KEY_INDEX d ! i) = key_text (hd (kss ! i))"
    by (simp_all add: key_blocks_def)
  from i(2) obtain j where j: "j < length (kss ! i)" "kss ! i ! j = k"
    by (auto simp add: in_set_conv_nth)
  have "toLowerCase (key_text (kss ! i ! 0)) \<le> toLowerCase (key_text (kss ! i ! j))"
    using sorted_wrt_nth_less [OF sorted_wrt_concat_block [OF sorted i(1)], of 0 j] j(1)
    by (cases j) auto
  with ne j(2) fw show ?thesis
    by (simp add: hd_conv_nth)
qed

lemma key_blocks_index:
  assumes kb: "key_blocks x d kss"
    and sorted: "sorted_wrt (\<lambda>k k'. toLowerCase (key_text k) < toLowerCase (key_text k')) (concat kss)"
  shows "sorted_wrt (\<lambda>k k'. toLowerCase (kdx_first_word k) < toLowerCase (kdx_first_word k')) (KEY_INDEX d)"
    and "\<forall>l < length (KEY_INDEX d). 0 < l \<longrightarrow>
           kdx_last_word (KEY_INDEX d ! (l - 1)) \<noteq> kdx_first_word (KEY_INDEX d ! l)"
proof -
  have len: "length (KEY_INDEX d) = length kss"
    using kb by (simp add: key_blocks_def)
  have block: "kss ! i \<noteq> []" "kdx_first_word (KEY_INDEX d ! i) = key_text (hd (kss ! i))"
    "kdx_last_word (KEY_INDEX d ! i) = key_text (last (kss ! i))" if "i < length kss" for i
    using kb that by (simp_all add: key_blocks_def)
  show "sorted_wrt (\<lambda>k k'. toLowerCase (kdx_first_word k) < toLowerCase (kdx_first_word k')) (KEY_INDEX d)"
    unfolding sorted_wrt_iff_nth_less
  proof (intro allI impI)
    fix i j
    assume ij: "i < j" "j < length (KEY_INDEX d)"
    then have i: "i < length kss" and j: "j < length kss"
      using len by simp_all
    have "hd (kss ! i) \<in> set (kss ! i)"
      using block(1) [OF i] by simp
    with ij(1) j have "toLowerCase (key_text (hd (kss ! i))) < toLowerCase (kdx_first_word (KEY_INDEX d ! j))"
      by (rule key_blocks_order [OF kb sorted])
    then show "toLowerCase (kdx_first_word (KEY_INDEX d ! i)) < toLowerCase (kdx_first_word (KEY_INDEX d ! j))"
      by (simp only: block(2) [OF i])
  qed
  show "\<forall>l < length (KEY_INDEX d). 0 < l \<longrightarrow>
           kdx_last_word (KEY_INDEX d ! (l - 1)) \<noteq> kdx_first_word (KEY_INDEX d ! l)"
  proof (intro allI impI)
    fix l
    assume l: "l < length (KEY_INDEX d)" "0 < l"
    then have l1: "l - 1 < length kss" "l - 1 < l" and l2: "l < length kss"
      using len by simp_all
    have "last (kss ! (l - 1)) \<in> set (kss ! (l - 1))"
      using block(1) [OF l1(1)] by simp
    with l1(2) l2
    have "toLowerCase (key_text (last (kss ! (l - 1)))) < toLowerCase (kdx_first_word (KEY_INDEX d ! l))"
      by (rule key_blocks_order [OF kb sorted])
    then have "key_text (last (kss ! (l - 1))) \<noteq> kdx_first_word (KEY_INDEX d ! l)"
      by auto
    then show "kdx_last_word (KEY_INDEX d ! (l - 1)) \<noteq> kdx_first_word (KEY_INDEX d ! l)"
      using block(3) [OF l1(1)] by simp
  qed
qed

lemma key_blocks_reduce:
  assumes flags: "\<not> isTrue (KeyCaseSensitive a)" "\<not> isTrue (StripKey a)"
    and kb: "key_blocks x d kss"
    and sorted: "sorted_wrt (\<lambda>k k'. toLowerCase (key_text k) < toLowerCase (key_text k')) (concat kss)"
  obtains b where "b < length kss" and "reduce a (KEY_INDEX d) word = Some (KEY_INDEX d ! b)"
    and "\<And>i k. i < length kss \<Longrightarrow> k \<in> set (kss ! i) \<Longrightarrow> toLowerCase (key_text k) = word \<Longrightarrow> b = i"
proof (cases "\<exists>i < length kss. \<exists>k \<in> set (kss ! i). toLowerCase (key_text k) = word")
  case False
  have len: "length (KEY_INDEX d) = length kss" "KEY_INDEX d \<noteq> []"
    using kb by (auto simp add: key_blocks_def)
  from reduce_total [OF len(2), of a word] obtain b where
    "b < length kss" "reduce a (KEY_INDEX d) word = Some (KEY_INDEX d ! b)"
    using len(1) by auto
  then show ?thesis
  proof (rule that)
    fix i k
    assume "i < length kss" "k \<in> set (kss ! i)" "toLowerCase (key_text k) = word"
    with False show "b = i"
      by blast
  qed
next
  case True
  then obtain i k where i: "i < length kss" "k \<in> set (kss ! i)" "toLowerCase (key_text k) = word"
    by blast
  have len: "length (KEY_INDEX d) = length kss"
    using kb by (simp add: key_blocks_def)
  have r: "reduce a (KEY_INDEX d) word = Some (KEY_INDEX d ! i)"
  proof (rule reduce_present [OF flags key_blocks_index [OF kb sorted]])
    show "i < length (KEY_INDEX d)"
      using i(1) len by simp
    show "toLowerCase (kdx_first_word (KEY_INDEX d ! i)) \<le> word"
      using key_blocks_first [OF kb sorted i(1,2)] i(3) by simp
    show "\<forall>i' < length (KEY_INDEX d). i < i' \<longrightarrow> word < toLowerCase (kdx_first_word (KEY_INDEX d ! i'))"
    proof (intro allI impI)
      fix i'
      assume "i' < length (KEY_INDEX d)" "i < i'"
      then have "toLowerCase (key_text k) < toLowerCase (kdx_first_word (KEY_INDEX d ! i'))"
        using len i(2) by (intro key_blocks_order [OF kb sorted]) simp_all
      then show "word < toLowerCase (kdx_first_word (KEY_INDEX d ! i'))"
        by (simp only: i(3))
    qed
  qed
  have same: "i = i'" if i': "i' < length kss" "k' \<in> set (kss ! i')" "toLowerCase (key_text k') = word"
    for i' k'
  proof (rule ccontr)
    assume "i \<noteq> i'"
    then consider "i < i'" | "i' < i"
      by arith
    then show False
    proof cases
      case 1
      from sorted_wrt_concat_blocks [OF sorted 1 i'(1) i(2) i'(2)] i(3) i'(3) show False
        by simp
    next
      case 2
      from sorted_wrt_concat_blocks [OF sorted 2 i(1) i'(2) i(2)] i(3) i'(3) show False
        by simp
    qed
  qed
  from i(1) r show ?thesis
  proof (rule that)
    fix i' k'
    assume "i' < length kss" "k' \<in> set (kss ! i')" "toLowerCase (key_text k') = word"
    then show "i = i'"
      by (rule same)
  qed
qed

lemma key_blocks_load:
  assumes kb: "key_blocks x d kss"
    and sorted: "sorted_wrt (\<lambda>k k'. toLowerCase (key_text k) < toLowerCase (key_text k')) (concat kss)"
    and same: "attrs_of d1 = attrs_of d" "file_of d1 = file_of d" "KEY_INDEX d1 = KEY_INDEX d"
    and cache: "cache_ok d1 kss"
    and i: "i < length kss"
  obtains d2 where "loadKeys x (KEY_INDEX d ! i) d1 = (Inr (kss ! i), d2)" and "cache_ok d2 kss"
proof (cases "case last_keys d1 of None \<Rightarrow> False
                | Some (list, pilot) \<Rightarrow> pilot = kdx_first_word (KEY_INDEX d ! i)")
  case False
  have "fst (loadKeys x (KEY_INDEX d ! i) (d\<lparr>last_keys := None\<rparr>)) = Inr (kss ! i)"
    using kb i by (simp add: key_blocks_def)
  from loadKeys_cache [OF same(1,2) False this]
  have "loadKeys x (KEY_INDEX d ! i) d1 =
          (Inr (kss ! i), d1\<lparr>last_keys := Some (kss ! i, kdx_first_word (KEY_INDEX d ! i))\<rparr>)" .
  moreover have "cache_ok (d1\<lparr>last_keys := Some (kss ! i, kdx_first_word (KEY_INDEX d ! i))\<rparr>) kss"
    using i by (auto simp add: cache_ok_def same(3))
  ultimately show ?thesis
    by (rule that)
next
  case True
  then obtain l where l: "last_keys d1 = Some (l, kdx_first_word (KEY_INDEX d ! i))"
    by (auto split: option.splits)
  with cache obtain i' where i': "i' < length kss" "l = kss ! i'"
    "kdx_first_word (KEY_INDEX d ! i) = kdx_first_word (KEY_INDEX d ! i')"
    by (auto simp add: cache_ok_def same(3))
  have "i' = i"
  proof (rule ccontr)
    assume "i' \<noteq> i"
    then consider "i < i'" | "i' < i"
      by arith
    then show False
    proof cases
      case 1
      with sorted_wrt_nth_less [OF key_blocks_index(1) [OF kb sorted], of i i'] i' kb
      show False
        by (simp add: key_blocks_def)
    next
      case 2
      with sorted_wrt_nth_less [OF key_blocks_index(1) [OF kb sorted], of i' i] i i'(3) kb
      show False
        by (simp add: key_blocks_def)
    qed
  qed
  with l i'(2) have "loadKeys x (KEY_INDEX d ! i) d1 = (Inr (kss ! i), d1)"
    by (simp add: loadKeys_def)
  then show ?thesis
    using cache by (rule that)
qed

text \<open>The scan for candidates in a dictionary with the key blocks \<open>kss\<close>.\<close>

lemma findCandidates_blocks:
  assumes flags: "\<not> isTrue (KeyCaseSensitive (attrs_of d))" "\<not> isTrue (StripKey (attrs_of d))"
    and kb: "key_blocks x d kss"
    and sorted: "sorted_wrt (\<lambda>k k'. toLowerCase (key_text k) < toLowerCase (key_text k')) (concat kss)"
    and word: "toLowerCase word = word"
  obtains cands d' where "findCandidates x word d = (Settled cands, d')"
    and "attrs_of d' = attrs_of d" and "file_of d' = file_of d"
    and "RECORD_BLOCK_TABLE d' = RECORD_BLOCK_TABLE d"
    and "set cands \<subseteq> set (concat kss)"
    and "\<And>k. k \<in> set (concat kss) \<Longrightarrow> toLowerCase (key_text k) = word \<Longrightarrow>
           filter (\<lambda>v. toLowerCase (key_text v) = word) cands = [k]"
proof -
  let ?low = "\<lambda>k. toLowerCase (key_text k)"
  have w: "adaptKey (attrs_of d) word = word"
    by (simp add: adaptKey_plain flags word)
  from key_blocks_reduce [OF flags kb sorted, of word] obtain b where
    b: "b < length kss" and r: "reduce (attrs_of d) (KEY_INDEX d) word = Some (KEY_INDEX d ! b)"
    and uniq: "\<And>i k. i < length kss \<Longrightarrow> k \<in> set (kss ! i) \<Longrightarrow> ?low k = word \<Longrightarrow> b = i"
    by blast
  have c0: "cache_ok d kss" and ix: "kdx_index (KEY_INDEX d ! b) = int b"
    and ne: "kss ! b \<noteq> []" and len: "length (KEY_INDEX d) = length kss"
    using kb b by (simp_all add: key_blocks_def)
  from key_blocks_load [OF kb sorted refl refl refl c0 b] obtain d1 where
    l1: "loadKeys x (KEY_INDEX d ! b) d = (Inr (kss ! b), d1)" and c1: "cache_ok d1 kss"
    by blast
  note f1 = loadKeys_frame [OF l1]
  have a1: "\<not> isTrue (KeyCaseSensitive (attrs_of d1))" "\<not> isTrue (StripKey (attrs_of d1))"
    using flags by (simp_all add: f1)
  note sb = sorted_wrt_concat_block [OF sorted b]
  from shrink_total [OF a1 ne, of None word] obtain idx0 where
    s: "shrink (attrs_of d1) (kss ! b) None word = Inr idx0" "0 \<le> idx0" "idx0 \<le> int (length (kss ! b))"
    by (auto simp add: pos_or_0_def)
  from walk_back_total [OF a1 s(2,3), of word] obtain idx where
    wb: "walk_back (attrs_of d1) (kss ! b) word idx0 = Inr idx" "0 \<le> idx" "idx \<le> idx0"
    by auto
  let ?cand0 = "js_slice (kss ! b) idx (idx + MAX_CANDIDATES)"
  let ?shortage = "MAX_CANDIDATES - int (length ?cand0)"
  obtain extra d' where fc: "findCandidates x word d = (Settled (?cand0 @ extra), d')"
    and f: "attrs_of d' = attrs_of d" "file_of d' = file_of d"
      "RECORD_BLOCK_TABLE d' = RECORD_BLOCK_TABLE d"
    and extra: "extra = [] \<or> (Suc b < length kss \<and> set extra \<subseteq> set (kss ! Suc b))"
  proof (cases "0 < ?shortage \<and> Suc b < length kss")
    case False
    then have "\<not> 0 < ?shortage \<or> nth_opt (KEY_INDEX d1) (kdx_index (KEY_INDEX d ! b) + 1) = None"
      by (auto simp add: nth_opt_def f1 ix len)
    then have "findCandidates x word d = (Settled (?cand0 @ []), d1)"
      by (auto simp add: findCandidates_def Let_def w r l1 s wb)
    then show ?thesis
      using f1 by (intro that [of "[]" d1]) simp_all
  next
    case True
    then have n: "nth_opt (KEY_INDEX d1) (kdx_index (KEY_INDEX d ! b) + 1) = Some (KEY_INDEX d ! Suc b)"
      by (simp add: nth_opt_def f1 ix len nat_add_distrib)
    from key_blocks_load [OF kb sorted f1(1,3,2) c1, of "Suc b"] True obtain d2 where
      l2: "loadKeys x (KEY_INDEX d ! Suc b) d1 = (Inr (kss ! Suc b), d2)"
      by blast
    note f2 = loadKeys_frame [OF l2]
    have "findCandidates x word d = (Settled (?cand0 @ js_slice (kss ! Suc b) 0 ?shortage), d2)"
      using True by (simp add: findCandidates_def Let_def w r l1 s wb n l2)
    then show ?thesis
      using True set_js_slice [of "kss ! Suc b" 0 ?shortage]
      by (intro that [of "js_slice (kss ! Suc b) 0 ?shortage" d2]) (simp_all add: f1 f2)
  qed
  have sub: "set (?cand0 @ extra) \<subseteq> set (concat kss)"
  proof -
    have "set ?cand0 \<subseteq> set (kss ! b)"
      by (rule set_js_slice)
    moreover have "set (kss ! i) \<subseteq> set (concat kss)" if "i < length kss" for i
      using nth_mem [OF that] by auto
    ultimately show ?thesis
      using extra b by fastforce
  qed
  have one: "filter (\<lambda>v. ?low v = word) (?cand0 @ extra) = [k]"
    if k: "k \<in> set (concat kss)" "?low k = word" for k
  proof -
    from k(1) obtain l where "l \<in> set kss" "k \<in> set l"
      by auto
    then obtain i where i: "i < length kss" "k \<in> set (kss ! i)"
      by (metis in_set_conv_nth)
    with k(2) have "b = i"
      by (intro uniq)
    with i(2) obtain j where j: "j < length (kss ! b)" "kss ! b ! j = k"
      by (auto simp add: in_set_conv_nth)
    have "idx0 = int j"
      using shrink_present [OF a1 sb j(1), of word None] s(1) j(2) k(2) by (simp add: pos_or_0_def)
    moreover have "j = 0 \<or> ?low (kss ! b ! (j - 1)) \<noteq> word"
      using sorted_wrt_nth_less [OF sb, of "j - 1" j] j k(2) by (cases j) auto
    ultimately have "idx = int j"
      using walk_back_stay [OF a1, of j "kss ! b" word] j(1) wb(1) by simp
    then have "filter (\<lambda>v. ?low v = word) ?cand0 = [k]"
      using filter_present [OF sb j(1), of word] j(2) k(2) by simp
    moreover have "filter (\<lambda>v. ?low v = word) extra = []"
    proof (cases "extra = []")
      case True
      then show ?thesis
        by simp
    next
      case False
      with extra have e: "Suc b < length kss" "set extra \<subseteq> set (kss ! Suc b)"
        by simp_all
      have "?low v \<noteq> word" if "v \<in> set extra" for v
        using sorted_wrt_concat_blocks [OF sorted _ e(1), of b k v] i(2) \<open>b = i\<close> that e(2) k(2)
        by auto
      then show ?thesis
        by (simp add: filter_empty_conv)
    qed
    ultimately show ?thesis
      by simp
  qed
  from fc f sub one show ?thesis
    by (rule that)
qed

lemma filter_sorted_keys:
  assumes sorted: "sorted_wrt (\<lambda>k k'. toLowerCase (key_text k) < toLowerCase (key_text k')) list"
    and k: "k \<in> set list"
  shows "filter (\<lambda>v. toLowerCase (key_text v) = toLowerCase (key_text k)) list = [k]"
proof -
  from k obtain i where i: "i < length list" "list ! i = k"
    by (auto simp add: in_set_conv_nth)
  have "filter (\<lambda>v. toLowerCase (key_text v) = toLowerCase (key_text k)) list = [list ! i]"
    using i(1)
  proof (rule filter_single)
    show "toLowerCase (key_text (list ! i)) = toLowerCase (key_text k)"
      using i(2) by simp
    fix j
    assume "j < length list" "toLowerCase (key_text (list ! j)) = toLowerCase (key_text k)"
    with sorted show "j = i"
      using i by (intro sorted_keys_distinct [of list j i]) simp_all
  qed
  with i(2) show ?thesis
    by simp
qed

lemma scan_lookup_blocks:
  assumes word: "toLowerCase (trim phrase) = word"
    and flags: "\<not> isTrue (KeyCaseSensitive (attrs_of d))" "\<not> isTrue (StripKey (attrs_of d))"
    and scan: "\<not> isReady (KEY_TABLE d)"
    and kb: "key_blocks x d kss"
    and sorted: "sorted_wrt (\<lambda>k k'. toLowerCase (key_text k) < toLowerCase (key_text k')) (concat kss)"
    and nolink: "\<forall>k \<in> set (concat kss). \<forall>defn. toLowerCase (key_text k) = word \<longrightarrow>
                   record_text x d (key_offset k) = Inr defn \<longrightarrow> substring defn 0 8 \<noteq> ''@@@LINK=''"
  shows "\<exists>d'. mdx_body x lookup phrase None d =
           Some (case filter (\<lambda>k. toLowerCase (key_text k) = word) (concat kss) of
                   [] \<Rightarrow> Rejected (Message ''** NOT FOUND **'')
                 | k # _ \<Rightarrow>
                     (case findWord_block d \<lparr>ki_offset = Some (key_offset k), ki_size = None\<rparr> of
                        Inl e \<Rightarrow> Rejected e
                      | Inr blk \<Rightarrow>
                          (case record_text x d (key_offset k) of
                             Inl e \<Rightarrow> Rejected TypeError
                           | Inr defn \<Rightarrow> Resolved (Items [Text defn]))),
                 d')"
proof -
  have lw: "toLowerCase word = word"
    using word toLowerCase_idem by blast
  from findCandidates_blocks [OF flags kb sorted lw] obtain cands d' where
    c: "findCandidates x word d = (Settled cands, d')"
    and f: "attrs_of d' = attrs_of d" "file_of d' = file_of d"
      "RECORD_BLOCK_TABLE d' = RECORD_BLOCK_TABLE d"
    and sub: "set cands \<subseteq> set (concat kss)"
    and one: "\<And>k. k \<in> set (concat kss) \<Longrightarrow> toLowerCase (key_text k) = word \<Longrightarrow>
           filter (\<lambda>v. toLowerCase (key_text v) = word) cands = [k]"
    by blast
  show ?thesis
  proof (cases "\<exists>k \<in> set (concat kss). toLowerCase (key_text k) = word")
    case False
    then have "filter (\<lambda>k. toLowerCase (key_text k) = word) (concat kss) = []"
      by (auto simp add: filter_empty_conv)
    moreover have "filter (\<lambda>k. toLowerCase (key_text k) = word) cands = []"
      using False sub by (auto simp add: filter_empty_conv)
    then have "scan_infos cands word None = []"
      by (simp add: scan_infos_def)
    ultimately show ?thesis
      using scan by (simp add: mdx_body_def word c map_findWord_def harvest_def)
  next
    case True
    then obtain k where k: "k \<in> set (concat kss)" "toLowerCase (key_text k) = word"
      by blast
    have fl: "filter (\<lambda>k. toLowerCase (key_text k) = word) (concat kss) = [k]"
      using filter_sorted_keys [OF sorted k(1)] k(2) by simp
    have s: "scan_infos cands word None = [keyinfo_of k]"
      using one [OF k] by (simp add: scan_infos_def)
    have "map_findWord x lookup [keyinfo_of k] d' =
        Some (case findWord_block d \<lparr>ki_offset = Some (key_offset k), ki_size = None\<rparr> of
                Inl e \<Rightarrow> Inl e
              | Inr blk \<Rightarrow>
                  (case record_text x d (key_offset k) of
                     Inl e \<Rightarrow> Inr [Rejected e]
                   | Inr defn \<Rightarrow> Inr [Resolved (Text defn)]), d')"
    proof (rule map_findWord_one)
      show "\<forall>defn. record_text x d (key_offset k) = Inr defn \<longrightarrow>
                   substring defn 0 8 \<noteq> ''@@@LINK=''"
        using nolink k by blast
    qed (simp_all add: keyinfo_of_def f)
    then show ?thesis
      using scan
      by (simp add: mdx_body_def word c s fl harvest_def split: sum.splits)
  qed
qed

text \<open>
  Where the two modes agree. Take a dictionary that is neither case sensitive nor key
  stripping, whose keyword section has the key blocks \<open>kss\<close>, with fewer than \<open>2^30\<close> keys
  in all that ascend strictly when lower-cased, and with record offsets below \<open>2^32\<close>.
  Let the hash be injective on the lower-cased keys and the word (the phrase trimmed and
  lower-cased), let the hash of the word be smaller than the hash of some key when there
  are two keys or more (so that \<open>find\<close> need not probe the last entry of the table), and
  let the word's record be no link. Then the lookup in express mode, with the table loaded
  from the keys of the blocks, and the lookup in scan mode resolve to the same definitions
  (to none, when the word is not a key), and to the text of the word's record when that
  can be read.
\<close>

lemma express_scan_agree:
  assumes word: "toLowerCase (trim phrase) = word"
    and flags: "\<not> isTrue (KeyCaseSensitive (attrs_of d))" "\<not> isTrue (StripKey (attrs_of d))"
    and scan: "\<not> isReady (KEY_TABLE d)"
    and kb: "key_blocks x d kss"
    and size: "length (concat kss) < 2 ^ 30"
    and sorted: "sorted_wrt (\<lambda>k k'. toLowerCase (key_text k) < toLowerCase (key_text k')) (concat kss)"
    and range: "\<forall>k \<in> set (concat kss). 0 \<le> key_offset k \<and> key_offset k < 2 ^ 32"
    and hashes: "inj_on (hashString x) (insert word ((\<lambda>k. toLowerCase (key_text k)) ` set (concat kss)))"
    and inner: "length (concat kss) = 1 \<or> (\<exists>k \<in> set (concat kss). hash x word < hash x (key_text k))"
    and nolink: "\<forall>k \<in> set (concat kss). \<forall>defn. toLowerCase (key_text k) = word \<longrightarrow>
                   record_text x d (key_offset k) = Inr defn \<longrightarrow> substring defn 0 8 \<noteq> ''@@@LINK=''"
  shows "definitions_of (LOOKUP_mdx x (Suc n) phrase None (d\<lparr>KEY_TABLE := loaded_table x (concat kss)\<rparr>)) =
           definitions_of (LOOKUP_mdx x (Suc n) phrase None d) \<and>
         (\<forall>k \<in> set (concat kss). \<forall>defn. toLowerCase (key_text k) = word \<longrightarrow>
             record_text x d (key_offset k) = Inr defn \<longrightarrow>
             definitions_of (LOOKUP_mdx x (Suc n) phrase None d) = [Text defn])"
proof -
  let ?lookup = "\<lambda>p. LOOKUP_mdx x n p None"
  have "length (concat kss) < 2 ^ 32"
    using size by simp
  note e = express_lookup [OF word hashes sorted this range inner nolink, of ?lookup]
  from scan_lookup_blocks [OF word flags scan kb sorted nolink, of ?lookup] obtain d' where
    s: "mdx_body x ?lookup phrase None d =
           Some (case filter (\<lambda>k. toLowerCase (key_text k) = word) (concat kss) of
                   [] \<Rightarrow> Rejected (Message ''** NOT FOUND **'')
                 | k # _ \<Rightarrow>
                     (case findWord_block d \<lparr>ki_offset = Some (key_offset k), ki_size = None\<rparr> of
                        Inl e \<Rightarrow> Rejected e
                      | Inr blk \<Rightarrow>
                          (case record_text x d (key_offset k) of
                             Inl e \<Rightarrow> Rejected TypeError
                           | Inr defn \<Rightarrow> Resolved (Items [Text defn]))),
                 d')"
    by blast
  have same: "definitions_of (LOOKUP_mdx x (Suc n) phrase None (d\<lparr>KEY_TABLE := loaded_table x (concat kss)\<rparr>)) =
           definitions_of (LOOKUP_mdx x (Suc n) phrase None d)"
    by (simp add: e s definitions_of_def split: list.splits sum.splits)
  have "definitions_of (LOOKUP_mdx x (Suc n) phrase None d) = [Text defn]"
    if k: "k \<in> set (concat kss)" "toLowerCase (key_text k) = word"
      and defn: "record_text x d (key_offset k) = Inr defn" for k defn
  proof -
    have "filter (\<lambda>k. toLowerCase (key_text k) = word) (concat kss) = [k]"
      using filter_sorted_keys [OF sorted k(1)] k(2) by simp
    moreover obtain blk where
      "findWord_block d \<lparr>ki_offset = Some (key_offset k), ki_size = None\<rparr> = Inr blk"
      using defn by (auto simp add: record_text_def split: sum.splits)
    ultimately show ?thesis
      using defn by (simp add: s definitions_of_def)
  qed
  with same show ?thesis
    by blast
qed

text \<open>The lookups of \<open>Cat\<close> in the two dictionaries, step by step.\<close>

lemma case_v2_simps: "v2 case_v2" "\<not> utf16 case_v2" "bpu case_v2 = 1" "tail case_v2 = 1"
  "isTrue (KeyCaseSensitive case_v2)" "\<not> isTrue (StripKey case_v2)"
  by (simp_all add: case_v2_def utf8_v2_def v2_def utf16_def bpu_def tail_def encoding_def)
     code_simp+

lemma cat_fields:
  "attrs_of (cat_dict a) = a" "\<not> isReady (KEY_TABLE (cat_dict a))"
  "KEY_INDEX (cat_dict a) = [cat_kdx]" "kdx_index cat_kdx = 0"
  by (simp_all add: cat_dict_def cat_kdx_def isReady_def createKeyTable_def)

lemma cat_loadKeys:
  assumes "v2 a" "\<not> utf16 a" "bpu a = 1"
  shows "loadKeys (plain_ext h) cat_kdx (cat_dict a) =
     (Inr [cat_key], (cat_dict a)\<lparr>last_keys := Some ([cat_key], ''Cat'')\<rparr>)"
  by (simp add: loadKeys_def cat_key_def)
     (simp add: cat_dict_def cat_kdx_def sliceThen_def js_slice_def readBlock_def Scanner_def readNum_def
        readInt_def readText_def searchTextLen_def search_nul.simps conseq_def getUint_def
        view_bytes_def be_uint_def forward_def assms Let_def decoder_def plain_ext_def char_of_eq_iff)

lemma cat_record:
  assumes "v2 a" "\<not> utf16 a" "bpu a = 1"
  shows "record_text (plain_ext h) (cat_dict a) 0 = Inr ''meow''"
proof -
  have "rb_find (fill_record_block_table 20 [(13, 5)]) 0 =
     Some \<lparr>block_no = 0, comp_offset = 20, comp_size = 13, decomp_offset = 0, decomp_size = 5\<rparr>"
    by code_simp
  then show ?thesis
    by (simp add: record_text_def findWord_block_def cat_dict_def read_definition_def sliceThen_def
        js_slice_def readBlock_def Scanner_def readText_def searchTextLen_def search_nul.simps
        conseq_def getUint_def view_bytes_def be_uint_def forward_def assms Let_def decoder_def
        plain_ext_def char_of_eq_iff)
qed

lemma cat_words: "toLowerCase (trim ''Cat'') = ''cat''" "toLowerCase ''Cat'' = ''cat''"
  "toLowerCase ''dog'' = ''dog''" "substring ''meow'' 0 8 \<noteq> ''@@@LINK=''" "''cat'' < ''dog''"
  by code_simp+

lemma cat_express:
  assumes "v2 a" "\<not> utf16 a" "bpu a = 1"
  shows "LOOKUP_mdx (plain_ext h) (Suc n) ''Cat'' None
           ((cat_dict a)\<lparr>KEY_TABLE := loaded_table (plain_ext h) [cat_key]\<rparr>) =
         Some (Resolved (Items [Text ''meow'']),
               (cat_dict a)\<lparr>KEY_TABLE := loaded_table (plain_ext h) [cat_key]\<rparr>)"
proof -
  have k: "key_text cat_key = ''Cat''" "key_offset cat_key = 0"
    by (simp_all add: cat_key_def)
  obtain blk where "findWord_block (cat_dict a) \<lparr>ki_offset = Some 0, ki_size = None\<rparr> = Inr blk"
    using cat_record [OF assms, of h] by (auto simp add: record_text_def split: sum.splits)
  then show ?thesis
    using express_lookup [of "''Cat''" "''cat''" "plain_ext h" "[cat_key]" "cat_dict a"
        "\<lambda>p. LOOKUP_mdx (plain_ext h) n p None"]
    by (simp add: cat_words k cat_record [OF assms])
qed

lemma cat_scan:
  "LOOKUP_mdx (plain_ext h) (Suc n) ''Cat'' None (cat_dict case_v2) =
     Some (Rejected (Message ''** NOT FOUND **''),
           (cat_dict case_v2)\<lparr>last_keys := Some ([cat_key], ''Cat'')\<rparr>)"
proof -
  let ?d' = "(cat_dict case_v2)\<lparr>last_keys := Some ([cat_key], ''Cat'')\<rparr>"
  have a: "adaptKey case_v2 ''cat'' = ''cat''"
    by (simp add: adaptKey_def case_v2_simps)
  have o: "adaptKey_opt case_v2 key = Inr None" for key
    by (simp add: adaptKey_opt_def case_v2_simps)
  have r: "reduce case_v2 [cat_kdx] ''cat'' = Some cat_kdx"
    by (subst reduce.simps) (simp add: nth_opt_def)
  have s: "shrink case_v2 [cat_key] None ''cat'' = Inr 1"
    by (subst shrink.simps) (simp add: o pos_or_0_def)
  have b: "walk_back case_v2 [cat_key] ''cat'' 1 = Inr 1"
    by (subst walk_back.simps) (simp add: o)
  have "findCandidates (plain_ext h) ''cat'' (cat_dict case_v2) = (Settled [], ?d')"
    by (simp add: findCandidates_def Let_def cat_fields a r cat_loadKeys case_v2_simps s b
        nth_opt_def js_slice_def MAX_CANDIDATES_def)
  then show ?thesis
    by (simp add: mdx_body_def cat_words cat_fields scan_infos_def map_findWord_def harvest_def)
qed

lemma pets_fields:
  "attrs_of pets_dict = utf8_v2" "\<not> isReady (KEY_TABLE pets_dict)"
  "KEY_INDEX pets_dict = [cat_kdx, dog_kdx]" "last_keys pets_dict = None"
  by (simp_all add: pets_dict_def isReady_def createKeyTable_def)

lemma pets_loadKeys:
  "fst (loadKeys (plain_ext h) cat_kdx (pets_dict\<lparr>last_keys := None\<rparr>)) = Inr [cat_key]"
  "fst (loadKeys (plain_ext h) dog_kdx (pets_dict\<lparr>last_keys := None\<rparr>)) = Inr [dog_key]"
  by (simp_all add: loadKeys_def cat_key_def dog_key_def pets_dict_def cat_kdx_def dog_kdx_def
        sliceThen_def js_slice_def readBlock_def Scanner_def readNum_def readInt_def readText_def
        searchTextLen_def search_nul.simps conseq_def getUint_def view_bytes_def be_uint_def
        forward_def utf8_v2_simps Let_def decoder_def plain_ext_def char_of_eq_iff)

lemma pets_blocks: "key_blocks (plain_ext h) pets_dict [[cat_key], [dog_key]]"
proof -
  have two: "(\<forall>i < length [[cat_key], [dog_key]]. P i) = (P 0 \<and> P 1)" for P
    by (auto simp add: less_Suc_eq)
  have "kdx_index cat_kdx = 0" "kdx_first_word cat_kdx = key_text cat_key"
    "kdx_last_word cat_kdx = key_text cat_key" "kdx_index dog_kdx = 1"
    "kdx_first_word dog_kdx = key_text dog_key" "kdx_last_word dog_kdx = key_text dog_key"
    by (simp_all add: cat_kdx_def dog_kdx_def cat_key_def dog_key_def)
  then show ?thesis
    unfolding key_blocks_def two
    by (simp add: cache_ok_def pets_fields pets_loadKeys)
qed

text \<open>
  A case sensitive dictionary that does not strip its keys: scan mode finds no key in it.
  For the dictionary with the one key \<open>Cat\<close>, the lookup of \<open>Cat\<close> resolves to the record
  in express mode, where the phrase and the key are lower-cased before they are hashed, and
  is rejected in scan mode, where \<open>_adaptKey\<close> is the identity and the phrase, a string, is
  compared by \<open>===\<close> with the key, a \<open>String\<close> object. This is so whatever the hash
  function is.
\<close>

lemma cat_case_sensitive:
  "\<forall>h n. loadKeys (plain_ext h) cat_kdx (cat_dict case_v2) =
            (Inr [cat_key], (cat_dict case_v2)\<lparr>last_keys := Some ([cat_key], ''Cat'')\<rparr>) \<and>
          LOOKUP_mdx (plain_ext h) (Suc n) ''Cat'' None
            ((cat_dict case_v2)\<lparr>KEY_TABLE := loaded_table (plain_ext h) [cat_key]\<rparr>) =
            Some (Resolved (Items [Text ''meow'']),
                  (cat_dict case_v2)\<lparr>KEY_TABLE := loaded_table (plain_ext h) [cat_key]\<rparr>) \<and>
          LOOKUP_mdx (plain_ext h) (Suc n) ''Cat'' None (cat_dict case_v2) =
            Some (Rejected (Message ''** NOT FOUND **''),
                  (cat_dict case_v2)\<lparr>last_keys := Some ([cat_key], ''Cat'')\<rparr>)"
  by (simp only: cat_loadKeys [OF case_v2_simps(1-3)] cat_express [OF case_v2_simps(1-3)] cat_scan) simp

lemma pets_keys: "key_text cat_key = ''Cat''" "key_offset cat_key = 0" "key_text dog_key = ''dog''"
  "key_offset dog_key = 5"
  by (simp_all add: cat_key_def dog_key_def)

lemma pets_records:
  "findWord_block pets_dict \<lparr>ki_offset = Some 0, ki_size = sz\<rparr> =
     Inr \<lparr>block_no = 0, comp_offset = 40, comp_size = 18, decomp_offset = 0, decomp_size = 10\<rparr>"
  "findWord_block pets_dict \<lparr>ki_offset = Some 5, ki_size = sz\<rparr> =
     Inr \<lparr>block_no = 0, comp_offset = 40, comp_size = 18, decomp_offset = 0, decomp_size = 10\<rparr>"
  "record_text (plain_ext h) pets_dict 0 = Inr ''meow''"
  "record_text (plain_ext h) pets_dict 5 = Inr ''woof''"
proof -
  have f: "rb_find (fill_record_block_table 40 [(18, 10)]) 0 =
     Some \<lparr>block_no = 0, comp_offset = 40, comp_size = 18, decomp_offset = 0, decomp_size = 10\<rparr>"
    "rb_find (fill_record_block_table 40 [(18, 10)]) 5 =
     Some \<lparr>block_no = 0, comp_offset = 40, comp_size = 18, decomp_offset = 0, decomp_size = 10\<rparr>"
    by code_simp+
  then show "findWord_block pets_dict \<lparr>ki_offset = Some 0, ki_size = sz\<rparr> =
     Inr \<lparr>block_no = 0, comp_offset = 40, comp_size = 18, decomp_offset = 0, decomp_size = 10\<rparr>"
    "findWord_block pets_dict \<lparr>ki_offset = Some 5, ki_size = sz\<rparr> =
     Inr \<lparr>block_no = 0, comp_offset = 40, comp_size = 18, decomp_offset = 0, decomp_size = 10\<rparr>"
    by (simp_all add: findWord_block_def pets_dict_def)
  from f show "record_text (plain_ext h) pets_dict 0 = Inr ''meow''"
    "record_text (plain_ext h) pets_dict 5 = Inr ''woof''"
    by (simp_all add: record_text_def findWord_block_def pets_dict_def read_definition_def sliceThen_def
        js_slice_def readBlock_def Scanner_def readText_def searchTextLen_def search_nul.simps
        conseq_def getUint_def view_bytes_def be_uint_def forward_def utf8_v2_simps Let_def
        decoder_def plain_ext_def char_of_eq_iff)
qed

lemma pets_words: "toLowerCase (trim ''dog'') = ''dog''" "substring ''woof'' 0 8 \<noteq> ''@@@LINK=''"
  "toLowerCase ''cat'' = ''cat''"
  by code_simp+

lemma pets_sorted:
  "sorted_wrt (\<lambda>k k'. toLowerCase (key_text k) < toLowerCase (key_text k')) (concat [[cat_key], [dog_key]])"
  by (simp add: pets_keys cat_words)

text \<open>The lookups of \<open>Cat\<close> and of \<open>dog\<close> in \<open>pets_dict\<close> in scan mode.\<close>

lemma pets_scan:
  "map_option fst (LOOKUP_mdx (plain_ext h) (Suc n) ''Cat'' None pets_dict) =
     Some (Resolved (Items [Text ''meow'']))"
  "map_option fst (LOOKUP_mdx (plain_ext h) (Suc n) ''dog'' None pets_dict) =
     Some (Resolved (Items [Text ''woof'']))"
proof -
  let ?lookup = "\<lambda>p. LOOKUP_mdx (plain_ext h) n p None"
  have flags: "\<not> isTrue (KeyCaseSensitive (attrs_of pets_dict))" "\<not> isTrue (StripKey (attrs_of pets_dict))"
    by (simp_all add: pets_fields utf8_v2_keys)
  have "\<exists>d'. mdx_body (plain_ext h) ?lookup ''Cat'' None pets_dict =
               Some (Resolved (Items [Text ''meow'']), d')"
    using scan_lookup_blocks [OF cat_words(1) flags pets_fields(2) pets_blocks pets_sorted, of h ?lookup]
    by (simp add: pets_keys cat_words pets_records)
  then show "map_option fst (LOOKUP_mdx (plain_ext h) (Suc n) ''Cat'' None pets_dict) =
     Some (Resolved (Items [Text ''meow'']))"
    by auto
  have "\<exists>d'. mdx_body (plain_ext h) ?lookup ''dog'' None pets_dict =
               Some (Resolved (Items [Text ''woof'']), d')"
    using scan_lookup_blocks [OF pets_words(1) flags pets_fields(2) pets_blocks pets_sorted, of h ?lookup]
    by (simp add: pets_keys cat_words pets_words pets_records)
  then show "map_option fst (LOOKUP_mdx (plain_ext h) (Suc n) ''dog'' None pets_dict) =
     Some (Resolved (Items [Text ''woof'']))"
    by auto
qed


lemma pets_hashes: "hash (plain_ext h) ''Cat'' = h ''cat''" "hash (plain_ext h) ''dog'' = h ''dog''"
  "hash (plain_ext h) ''cat'' = h ''cat''"
  by (simp_all add: hash_def plain_ext_def cat_words pets_words)

lemma pets_table:
  "view (loaded_table (plain_ext h) [cat_key, dog_key]) =
     (if h ''cat'' \<le> h ''dog'' then [h ''cat'', 0, h ''dog'', 1] else [h ''dog'', 1, h ''cat'', 0])"
  "kdata (loaded_table (plain_ext h) [cat_key, dog_key]) = [0, 5]"
proof -
  have "[0..<length [cat_key, dog_key]] = [0, Suc 0]"
    by (simp add: upt_rec)
  then show "view (loaded_table (plain_ext h) [cat_key, dog_key]) =
     (if h ''cat'' \<le> h ''dog'' then [h ''cat'', 0, h ''dog'', 1] else [h ''dog'', 1, h ''cat'', 0])"
    by (simp add: loaded_table_fields hash_pairs_def pets_keys pets_hashes)
  show "kdata (loaded_table (plain_ext h) [cat_key, dog_key]) = [0, 5]"
    by (simp add: loaded_table_fields pets_keys)
qed

lemma pets_find:
  "kt_find (plain_ext h) (loaded_table (plain_ext h) [cat_key, dog_key]) ''cat'' =
     (if h ''dog'' < h ''cat'' then None
      else if h ''cat'' = h ''dog''
      then Some [\<lparr>ki_offset = Some 0, ki_size = None\<rparr>, \<lparr>ki_offset = Some 5, ki_size = None\<rparr>]
      else Some [\<lparr>ki_offset = Some 0, ki_size = None\<rparr>])"
  "kt_find (plain_ext h) (loaded_table (plain_ext h) [cat_key, dog_key]) ''dog'' =
     (if h ''cat'' < h ''dog'' then None
      else if h ''cat'' = h ''dog''
      then Some [\<lparr>ki_offset = Some 0, ki_size = None\<rparr>, \<lparr>ki_offset = Some 5, ki_size = None\<rparr>]
      else Some [\<lparr>ki_offset = Some 5, ki_size = None\<rparr>])"
  by (auto simp add: kt_find_def pets_table pets_hashes find_loop.simps [of _ _ _ 0 1]
      first_same.simps [of _ _ 0] collect_same.simps [of _ _ _ 0] collect_same.simps [of _ _ _ 1]
      u32_at_def keyinfo_at_def Let_def not_less not_le simp flip: word_uint_eq_iff)


lemma pets_findWord:
  "map_findWord (plain_ext h) lookup [\<lparr>ki_offset = Some 0, ki_size = None\<rparr>]
     (pets_dict\<lparr>KEY_TABLE := t\<rparr>) =
     Some (Inr [Resolved (Text ''meow'')], pets_dict\<lparr>KEY_TABLE := t\<rparr>)"
  "map_findWord (plain_ext h) lookup [\<lparr>ki_offset = Some 5, ki_size = None\<rparr>]
     (pets_dict\<lparr>KEY_TABLE := t\<rparr>) =
     Some (Inr [Resolved (Text ''woof'')], pets_dict\<lparr>KEY_TABLE := t\<rparr>)"
  "map_findWord (plain_ext h) lookup
     [\<lparr>ki_offset = Some 0, ki_size = None\<rparr>, \<lparr>ki_offset = Some 5, ki_size = None\<rparr>]
     (pets_dict\<lparr>KEY_TABLE := t\<rparr>) =
     Some (Inr [Resolved (Text ''meow''), Resolved (Text ''woof'')], pets_dict\<lparr>KEY_TABLE := t\<rparr>)"
proof -
  let ?d = "pets_dict\<lparr>KEY_TABLE := t\<rparr>"
  let ?blk = "\<lparr>block_no = 0, comp_offset = 40, comp_size = 18, decomp_offset = 0, decomp_size = 10\<rparr>"
  have b: "findWord_block ?d \<lparr>ki_offset = Some 0, ki_size = None\<rparr> = Inr ?blk"
    "findWord_block ?d \<lparr>ki_offset = Some 5, ki_size = None\<rparr> = Inr ?blk"
    using pets_records(1,2) [of None] by (simp_all add: findWord_block_def)
  have r: "read_definition (plain_ext h) (attrs_of ?d) (sliceThen (file_of ?d) 40 18) ?blk
             \<lparr>ki_offset = Some 0, ki_size = None\<rparr> = Inr ''meow''"
    "read_definition (plain_ext h) (attrs_of ?d) (sliceThen (file_of ?d) 40 18) ?blk
             \<lparr>ki_offset = Some 5, ki_size = None\<rparr> = Inr ''woof''"
    using pets_records(3,4) [of h] by (simp_all add: record_text_def pets_records(1,2))
  have l: "substring ''meow'' 0 8 \<noteq> ''@@@LINK=''" "substring ''woof'' 0 8 \<noteq> ''@@@LINK=''"
    by code_simp+
  have f: "findWord_then (plain_ext h) lookup (?blk, \<lparr>ki_offset = Some 0, ki_size = None\<rparr>) ?d =
             Some (Resolved (Text ''meow''), ?d)"
    "findWord_then (plain_ext h) lookup (?blk, \<lparr>ki_offset = Some 5, ki_size = None\<rparr>) ?d =
             Some (Resolved (Text ''woof''), ?d)"
    using r l by (simp_all add: findWord_then_def followLink_def unthrown_def)
  show "map_findWord (plain_ext h) lookup [\<lparr>ki_offset = Some 0, ki_size = None\<rparr>] ?d =
     Some (Inr [Resolved (Text ''meow'')], ?d)"
    "map_findWord (plain_ext h) lookup [\<lparr>ki_offset = Some 5, ki_size = None\<rparr>] ?d =
     Some (Inr [Resolved (Text ''woof'')], ?d)"
    "map_findWord (plain_ext h) lookup
     [\<lparr>ki_offset = Some 0, ki_size = None\<rparr>, \<lparr>ki_offset = Some 5, ki_size = None\<rparr>] ?d =
     Some (Inr [Resolved (Text ''meow''), Resolved (Text ''woof'')], ?d)"
    by (simp_all add: map_findWord_def b f)
qed

text \<open>The lookups of \<open>Cat\<close> and of \<open>dog\<close> in \<open>pets_dict\<close> in express mode.\<close>

lemma pets_express:
  "map_option fst (LOOKUP_mdx (plain_ext h) (Suc n) ''Cat'' None
      (pets_dict\<lparr>KEY_TABLE := loaded_table (plain_ext h) [cat_key, dog_key]\<rparr>)) =
     Some (if h ''dog'' < h ''cat'' then Rejected (Message ''*WORD NOT FOUND* Cat'')
           else if h ''cat'' = h ''dog'' then Resolved (Items [Text ''meow'', Text ''woof''])
           else Resolved (Items [Text ''meow'']))"
  "map_option fst (LOOKUP_mdx (plain_ext h) (Suc n) ''dog'' None
      (pets_dict\<lparr>KEY_TABLE := loaded_table (plain_ext h) [cat_key, dog_key]\<rparr>)) =
     Some (if h ''cat'' < h ''dog'' then Rejected (Message ''*WORD NOT FOUND* dog'')
           else if h ''cat'' = h ''dog'' then Resolved (Items [Text ''meow'', Text ''woof''])
           else Resolved (Items [Text ''woof'']))"
  by (simp_all add: mdx_body_def cat_words pets_words isReady_def loaded_table_fields express_infos_def
      pets_find pets_findWord harvest_def)


text \<open>
  C1. The two modes are meant to resolve a phrase to the same definitions, and \<open>find\<close>
  breaks this: its binary search starts with \<open>hi\<close> at the last entry and gives up when the
  middle \<open>i\<close> meets \<open>lo\<close>, so the last entry of a table of two entries or more, the one with
  the greatest hash, is never probed. In \<open>pets_dict\<close>, with the keys \<open>Cat\<close> and \<open>dog\<close> in two
  key blocks, \<open>loadKeys\<close> reads the two keys, and scan mode resolves \<open>Cat\<close> to \<open>meow\<close> and
  \<open>dog\<close> to \<open>woof\<close>, whatever the hash function \<open>h\<close> is. Express mode, with the table
  loaded from these keys, rejects the one of the two phrases whose key has the greater
  hash, and resolves the other to its record; when the two hashes are equal it resolves
  each phrase to both records. So for every hash function the two modes differ on one of
  the two phrases.
\<close>

theorem express_misses_greatest_hash:
  "fst (loadKeys (plain_ext h) cat_kdx pets_dict) = Inr [cat_key] \<and>
   fst (loadKeys (plain_ext h) dog_kdx pets_dict) = Inr [dog_key] \<and>
   map_option fst (LOOKUP_mdx (plain_ext h) (Suc n) ''Cat'' None pets_dict) =
     Some (Resolved (Items [Text ''meow''])) \<and>
   map_option fst (LOOKUP_mdx (plain_ext h) (Suc n) ''dog'' None pets_dict) =
     Some (Resolved (Items [Text ''woof''])) \<and>
   map_option fst (LOOKUP_mdx (plain_ext h) (Suc n) ''Cat'' None
      (pets_dict\<lparr>KEY_TABLE := loaded_table (plain_ext h) [cat_key, dog_key]\<rparr>)) =
     Some (if h ''dog'' < h ''cat'' then Rejected (Message ''*WORD NOT FOUND* Cat'')
           else if h ''cat'' = h ''dog'' then Resolved (Items [Text ''meow'', Text ''woof''])
           else Resolved (Items [Text ''meow''])) \<and>
   map_option fst (LOOKUP_mdx (plain_ext h) (Suc n) ''dog'' None
      (pets_dict\<lparr>KEY_TABLE := loaded_table (plain_ext h) [cat_key, dog_key]\<rparr>)) =
     Some (if h ''cat'' < h ''dog'' then Rejected (Message ''*WORD NOT FOUND* dog'')
           else if h ''cat'' = h ''dog'' then Resolved (Items [Text ''meow'', Text ''woof''])
           else Resolved (Items [Text ''woof'']))"
proof -
  have "pets_dict\<lparr>last_keys := None\<rparr> = pets_dict"
    by (simp add: pets_dict_def)
  then have "fst (loadKeys (plain_ext h) cat_kdx pets_dict) = Inr [cat_key]"
    "fst (loadKeys (plain_ext h) dog_kdx pets_dict) = Inr [dog_key]"
    using pets_loadKeys [of h] by simp_all
  then show ?thesis
    by (simp only: pets_scan pets_express)
qed

end
